theory Spec2Isabelle
  imports Complex_Main "HOL-Library.List_Lexorder"
begin

section \<open>Python strings and number formatting\<close>

text \<open>
  A Python \<open>str\<close> is a sequence of Unicode code points, so it is modelled as a list of
  natural numbers; \<open>len\<close> is \<open>length\<close>, slicing is \<open>take\<close>/\<open>drop\<close>, and the default
  ordering of strings is the lexicographic order of the code points. An ASCII literal
  of the source is written \<open>lit ''...''\<close>.
\<close>

type_synonym pystr = "nat list"

definition lit :: "string \<Rightarrow> pystr" where
  "lit s = map of_char s"

text \<open>
  The exceptions of the program: \<open>ValueError\<close> is what \<open>chr\<close> raises outside
  \<open>range(0x110000)\<close>, \<open>KeyError\<close> what a dictionary lookup raises, and \<open>Raised msg\<close>
  is any exception raised by an external collaborator (the drawing library, the font
  loader, the operating system), with \<open>str(e) = msg\<close>.
\<close>

datatype error = ValueError | KeyError | Raised pystr

definition str_of_error :: "error \<Rightarrow> pystr" where
  "str_of_error e =
     (case e of
        ValueError \<Rightarrow> lit ''chr() arg not in range(0x110000)''
      | KeyError \<Rightarrow> lit ''KeyError''
      | Raised msg \<Rightarrow> msg)"

definition chr :: "int \<Rightarrow> error + pystr" where
  "chr code = (if 0 \<le> code \<and> code < 1114112 then Inr [nat code] else Inl ValueError)"

text \<open>Digits of a number in base \<open>b\<close>, most significant first, upper-case letters.\<close>

definition digit_char :: "nat \<Rightarrow> nat" where
  "digit_char d = lit ''0123456789ABCDEF'' ! d"

fun digits_of :: "nat \<Rightarrow> nat \<Rightarrow> pystr" where
  "digits_of b n =
     (if b < 2 \<or> n < b then [digit_char n]
      else digits_of b (n div b) @ [digit_char (n mod b)])"

declare digits_of.simps [simp del]

definition zero_pad :: "nat \<Rightarrow> pystr \<Rightarrow> pystr" where
  "zero_pad w s = replicate (w - length s) (of_char CHR ''0'') @ s"

text \<open>
  \<open>format(code, '0wX')\<close>: upper-case hexadecimal, padded with zeros to width \<open>w\<close>; the
  sign of a negative number counts towards the width. \<open>str(code)\<close> is the decimal text.
\<close>

definition format_X :: "nat \<Rightarrow> int \<Rightarrow> pystr" where
  "format_X w code =
     (if code < 0 then lit ''-'' @ zero_pad (w - 1) (digits_of 16 (nat (- code)))
      else zero_pad w (digits_of 16 (nat code)))"

definition str_int :: "int \<Rightarrow> pystr" where
  "str_int code =
     (if code < 0 then lit ''-'' @ digits_of 10 (nat (- code))
      else digits_of 10 (nat code))"

section \<open>Cell annotations\<close>

text \<open>The table \<open>special_chars\<close> of \<open>draw_character_grid\<close>, in the order of the source.\<close>

definition special_chars :: "(int \<times> pystr) list" where
  "special_chars =
     [(32, lit ''Space''), (33, lit ''!''), (34, [34]), (35, lit ''#''), (36, lit ''$''),
      (37, lit ''%''), (38, lit ''&''), (39, [39]),
      (40, lit ''(''), (41, lit '')''), (42, lit ''*''), (43, lit ''+''), (44, lit '',''),
      (45, lit ''-''), (46, lit ''.''), (47, lit ''/''),
      (58, lit '':''), (59, lit '';''), (60, lit ''<''), (61, lit ''=''), (62, lit ''>''),
      (63, lit ''?''), (64, lit ''@''),
      (91, lit ''[''), (92, [92]), (93, lit '']''), (94, lit ''^''), (95, lit ''_''),
      (96, [96]),
      (123, lit ''{''), (124, lit ''|''), (125, lit ''}''), (126, lit ''~''),
      (127, lit ''DEL'')]"

text \<open>
  The key label of the basic page, lines 176 to 185: the table first, then digits, upper
  case and lower case letters, then the raw character below 127 and the \<open>U+XXXX\<close> form
  from 127 on. \<open>chr\<close> raises on a negative code.
\<close>

definition key_label :: "int \<Rightarrow> error + pystr" where
  "key_label code =
     (case map_of special_chars code of
        Some name \<Rightarrow> Inr name
      | None \<Rightarrow>
          if 48 \<le> code \<and> code \<le> 57 then chr code
          else if 65 \<le> code \<and> code \<le> 90 then chr code
          else if 97 \<le> code \<and> code \<le> 122 then chr code
          else if code < 127 then chr code
          else Inr (lit ''U+'' @ format_X 4 code))"

text \<open>Lines 190 and 191: a label longer than 6 characters keeps 5 and gets a period.\<close>

definition truncate_label :: "pystr \<Rightarrow> pystr" where
  "truncate_label label = (if length label > 6 then take 5 label @ lit ''.'' else label)"

text \<open>The label of the extended page (line 239) and the two code lines (197, 198).\<close>

definition unicode_label :: "int \<Rightarrow> pystr" where
  "unicode_label code = lit ''U+'' @ format_X 4 code"

definition decimal_line :: "int \<Rightarrow> pystr" where
  "decimal_line code = str_int code"

definition hex_line :: "int \<Rightarrow> pystr" where
  "hex_line code = lit ''x'' @ format_X 2 code"

section \<open>The code points of one page\<close>

definition cols :: int where
  "cols = 16"

definition rows :: int where
  "rows = 14"

text \<open>\<open>range(a, b)\<close> of Python, and the range both grid loops run over (lines 161, 223).\<close>

definition py_range :: "int \<Rightarrow> int \<Rightarrow> int list" where
  "py_range a b = [a .. b - 1]"

definition page_codes :: "int \<Rightarrow> int \<Rightarrow> int list" where
  "page_codes start_code end_code =
     py_range start_code (min (end_code + 1) (start_code + (rows * cols)))"

section \<open>The drawing backend and the state of a run\<close>

text \<open>
  The calls the program makes on its canvas object, one constructor per method of the
  drawing library that the source uses, with \<open>NewCanvas\<close> for the constructor
  \<open>canvas.Canvas(path, pagesize)\<close>. Lengths and colours are floating-point numbers in the
  source; the model computes the same expressions over the reals, so it shows which
  formula a position comes from and not how the last bit is rounded.
\<close>

datatype draw_op =
    NewCanvas pystr real real
  | SetFont pystr int
  | SetStrokeColorRGB real real real
  | SetFillColorRGB real real real
  | Rect real real real real
  | DrawString real real pystr
  | DrawCentredString real real pystr
  | Line real real real real
  | ShowPage
  | Save

text \<open>
  An event is a call together with whether it returned (\<open>True\<close>) or raised. The canvas
  of the model is the list of all calls made so far, oldest first.
\<close>

type_synonym event = "draw_op \<times> bool"

text \<open>
  The drawing library is not part of the repository, so it is a parameter: whether a
  call raises may depend on the call and on everything done before; \<open>load_font\<close> is
  \<open>TTFont(font_id, font_path)\<close> followed by \<open>registerFont\<close>, and \<open>now\<close> the formatted time
  that the page header reads.
\<close>

record backend =
  raises :: "event list \<Rightarrow> draw_op \<Rightarrow> error option"
  load_font :: "pystr \<Rightarrow> pystr \<Rightarrow> error option"
  now :: "event list \<Rightarrow> pystr"

text \<open>The page geometry comes from the drawing library as well (lines 62, 63, 118).\<close>

record layout =
  inch :: real
  page_width :: real
  page_height :: real

definition letter_landscape :: layout where
  "letter_landscape = \<lparr>inch = 72, page_width = 792, page_height = 612\<rparr>"

definition margin :: "layout \<Rightarrow> real" where
  "margin L = 0.3 * inch L"

definition cell_size :: "layout \<Rightarrow> real" where
  "cell_size L = 0.50 * inch L"

definition font_size_char :: int where
  "font_size_char = 20"

definition font_size_label :: int where
  "font_size_label = 6"

text \<open>
  What a run changes: the canvas, the fonts registered with the library, the lines
  printed by the font loop, and the global \<open>page_count\<close>. All of it survives an
  exception, so an action returns the state next to its result or its error.
\<close>

record world =
  canvas :: "event list"
  registered :: "pystr list"
  console :: "pystr list"
  page_count :: int

type_synonym 'a act = "world \<Rightarrow> (error + 'a) \<times> world"

definition ok :: "'a \<Rightarrow> 'a act" where
  "ok x = (\<lambda>w. (Inr x, w))"

definition throw :: "error \<Rightarrow> 'a act" where
  "throw e = (\<lambda>w. (Inl e, w))"

definition and_then :: "'a act \<Rightarrow> ('a \<Rightarrow> 'b act) \<Rightarrow> 'b act" where
  "and_then m f = (\<lambda>w. case m w of (Inl e, w') \<Rightarrow> (Inl e, w') | (Inr x, w') \<Rightarrow> f x w')"

definition catch :: "'a act \<Rightarrow> (error \<Rightarrow> 'a act) \<Rightarrow> 'a act" where
  "catch m h = (\<lambda>w. case m w of (Inl e, w') \<Rightarrow> h e w' | (Inr x, w') \<Rightarrow> (Inr x, w'))"

definition lift :: "error + 'a \<Rightarrow> 'a act" where
  "lift r = (\<lambda>w. (r, w))"

definition call :: "backend \<Rightarrow> draw_op \<Rightarrow> unit act" where
  "call be op = (\<lambda>w.
     case raises be (canvas w) op of
       None \<Rightarrow> (Inr (), w\<lparr>canvas := canvas w @ [(op, True)]\<rparr>)
     | Some e \<Rightarrow> (Inl e, w\<lparr>canvas := canvas w @ [(op, False)]\<rparr>))"

fun calls :: "backend \<Rightarrow> draw_op list \<Rightarrow> unit act" where
  "calls be [] = ok ()"
| "calls be (op # ops) = and_then (call be op) (\<lambda>_. calls be ops)"

definition print :: "pystr \<Rightarrow> unit act" where
  "print line = (\<lambda>w. (Inr (), w\<lparr>console := console w @ [line]\<rparr>))"

text \<open>A \<open>for\<close> loop over code points whose body may \<open>break\<close>.\<close>

datatype 'a step = Break | Next 'a

fun for_loop :: "(int \<Rightarrow> 'a \<Rightarrow> 'a step act) \<Rightarrow> int list \<Rightarrow> 'a \<Rightarrow> 'a act" where
  "for_loop body [] a = ok a"
| "for_loop body (code # codes) a =
     and_then (body code a) (\<lambda>r. case r of Break \<Rightarrow> ok a | Next a' \<Rightarrow> for_loop body codes a')"

section \<open>The two grids\<close>

definition x_start :: "layout \<Rightarrow> real" where
  "x_start L = margin L"

definition y_start :: "layout \<Rightarrow> real" where
  "y_start L = page_height L - 0.9 * inch L"

definition dash :: pystr where
  "dash = [8212]"

text \<open>
  Lines 201 to 211 and 246 to 255, the same text in both grids: the glyph in the font
  under test, counted when every statement of the \<open>try\<close> block has run, and the dash in
  grey Helvetica when any of them raised. The handler is not protected itself.
\<close>

definition draw_glyph :: "backend \<Rightarrow> layout \<Rightarrow> pystr \<Rightarrow> real \<Rightarrow> real \<Rightarrow> int \<Rightarrow> nat \<Rightarrow> nat act" where
  "draw_glyph be L font_id x y code char_count =
     catch
       (and_then (calls be [SetFont font_id font_size_char, SetFillColorRGB 0 0 0]) (\<lambda>_.
        and_then (lift (chr code)) (\<lambda>char.
        and_then (call be (DrawCentredString (x + cell_size L / 2)
                            (y - cell_size L + 0.15 * inch L) char)) (\<lambda>_.
        ok (char_count + 1)))))
       (\<lambda>_.
        and_then (calls be [SetFont (lit ''Helvetica'') 8, SetFillColorRGB 0.8 0.8 0.8,
                           DrawCentredString (x + cell_size L / 2)
                             (y - cell_size L + 0.15 * inch L) dash]) (\<lambda>_.
        ok char_count))"

text \<open>The body of the loop of \<open>draw_character_grid\<close>, lines 162 to 213.\<close>

definition character_cell ::
  "backend \<Rightarrow> layout \<Rightarrow> pystr \<Rightarrow> int \<Rightarrow> int \<Rightarrow> nat \<Rightarrow> nat step act" where
  "character_cell be L font_id start_code code char_count =
     (let row = (code - start_code) div cols;
          col = (code - start_code) mod cols
      in if row \<ge> rows then ok Break
         else
           let x = x_start L + (real_of_int col * cell_size L);
               y = y_start L - (real_of_int row * cell_size L)
           in
             and_then (calls be [SetStrokeColorRGB 0.8 0.8 0.8,
                                Rect x (y - cell_size L) (cell_size L) (cell_size L)]) (\<lambda>_.
             and_then (lift (key_label code)) (\<lambda>label.
             and_then (calls be [SetFont (lit ''Helvetica-Bold'') font_size_label,
                                SetFillColorRGB 0.2 0.2 0.2,
                                DrawString (x + 0.03 * inch L) (y - 0.12 * inch L)
                                  (truncate_label label),
                                SetFont (lit ''Helvetica'') 6,
                                SetFillColorRGB 0.5 0.5 0.5,
                                DrawString (x + 0.03 * inch L) (y - 0.20 * inch L)
                                  (decimal_line code),
                                DrawString (x + 0.03 * inch L) (y - 0.27 * inch L)
                                  (hex_line code)]) (\<lambda>_.
             and_then (draw_glyph be L font_id x y code char_count) (\<lambda>n.
             and_then (call be (SetFillColorRGB 0 0 0)) (\<lambda>_.
             ok (Next n)))))))"

definition draw_character_grid ::
  "backend \<Rightarrow> layout \<Rightarrow> pystr \<Rightarrow> pystr \<Rightarrow> int \<Rightarrow> int \<Rightarrow> nat act" where
  "draw_character_grid be L font_id font_name start_code end_code =
     for_loop (character_cell be L font_id start_code) (page_codes start_code end_code) 0"

text \<open>The body of the loop of \<open>draw_extended_grid\<close>, lines 224 to 257.\<close>

definition extended_cell ::
  "backend \<Rightarrow> layout \<Rightarrow> pystr \<Rightarrow> int \<Rightarrow> int \<Rightarrow> nat \<Rightarrow> nat step act" where
  "extended_cell be L font_id start_code code char_count =
     (let row = (code - start_code) div cols;
          col = (code - start_code) mod cols
      in if row \<ge> rows then ok Break
         else
           let x = x_start L + (real_of_int col * cell_size L);
               y = y_start L - (real_of_int row * cell_size L)
           in
             and_then (calls be [SetStrokeColorRGB 0.8 0.8 0.8,
                                Rect x (y - cell_size L) (cell_size L) (cell_size L),
                                SetFont (lit ''Helvetica-Bold'') font_size_label,
                                SetFillColorRGB 0.2 0.2 0.2,
                                DrawString (x + 0.03 * inch L) (y - 0.12 * inch L)
                                  (unicode_label code),
                                SetFont (lit ''Helvetica'') 6,
                                SetFillColorRGB 0.5 0.5 0.5,
                                DrawString (x + 0.03 * inch L) (y - 0.20 * inch L)
                                  (decimal_line code)]) (\<lambda>_.
             and_then (draw_glyph be L font_id x y code char_count) (\<lambda>n.
             and_then (call be (SetFillColorRGB 0 0 0)) (\<lambda>_.
             ok (Next n)))))"

definition draw_extended_grid ::
  "backend \<Rightarrow> layout \<Rightarrow> pystr \<Rightarrow> pystr \<Rightarrow> int \<Rightarrow> int \<Rightarrow> nat act" where
  "draw_extended_grid be L font_id font_name start_code end_code =
     for_loop (extended_cell be L font_id start_code) (page_codes start_code end_code) 0"

section \<open>Pages and the font loop\<close>

text \<open>\<open>draw_page_header\<close>, lines 128 to 142.\<close>

definition draw_page_header :: "backend \<Rightarrow> layout \<Rightarrow> pystr \<Rightarrow> int \<Rightarrow> int \<Rightarrow> unit act" where
  "draw_page_header be L font_name page_num total_pages =
     and_then (calls be [SetFont (lit ''Helvetica-Bold'') 14,
                        DrawString (margin L) (page_height L - 0.3 * inch L)
                          (lit ''Font: '' @ font_name),
                        SetFont (lit ''Helvetica'') 8,
                        DrawString (page_width L - 2 * inch L) (page_height L - 0.3 * inch L)
                          (lit ''Page '' @ str_int page_num @ lit '' of '' @ str_int total_pages)]) (\<lambda>_.
     (\<lambda>w. calls be [DrawString (margin L) (page_height L - 0.5 * inch L)
                      (lit ''Generated: '' @ now be (canvas w)),
                    Line (margin L) (page_height L - 0.6 * inch L)
                      (page_width L - margin L) (page_height L - 0.6 * inch L)] w))"

definition replace_char :: "nat \<Rightarrow> nat \<Rightarrow> pystr \<Rightarrow> pystr" where
  "replace_char old new s = map (\<lambda>c. if c = old then new else c) s"

definition font_id_of :: "pystr \<Rightarrow> pystr" where
  "font_id_of font_name =
     replace_char (of_char CHR ''.'') (of_char CHR ''_'')
       (replace_char (of_char CHR ''-'') (of_char CHR ''_'')
         (replace_char (of_char CHR '' '') (of_char CHR ''_'') font_name))"

text \<open>Lines 270 and 271: a font is loaded unless its identifier is registered already.\<close>

definition register_font :: "backend \<Rightarrow> pystr \<Rightarrow> pystr \<Rightarrow> unit act" where
  "register_font be font_id font_path = (\<lambda>w.
     if font_id \<in> set (registered w) then (Inr (), w)
     else case load_font be font_id font_path of
            Some e \<Rightarrow> (Inl e, w)
          | None \<Rightarrow> (Inr (), w\<lparr>registered := registered w @ [font_id]\<rparr>))"

definition next_page :: "unit act" where
  "next_page = (\<lambda>w. (Inr (), w\<lparr>page_count := page_count w + 1\<rparr>))"

text \<open>The \<open>try\<close> block of the font loop, lines 267 to 299.\<close>

definition font_pages :: "backend \<Rightarrow> layout \<Rightarrow> int \<Rightarrow> int \<Rightarrow> pystr \<Rightarrow> pystr \<Rightarrow> unit act" where
  "font_pages be L total_fonts font_idx font_name font_path =
     (let font_id = font_id_of font_name in
      and_then (register_font be font_id font_path) (\<lambda>_.
      and_then (print (lit ''Processing '' @ str_int (font_idx + 1) @ lit ''/''
                        @ str_int total_fonts @ lit '': '' @ font_name)) (\<lambda>_.
      and_then next_page (\<lambda>_.
      and_then (\<lambda>w. if page_count w > 1 then call be ShowPage w else ok () w) (\<lambda>_.
      and_then (\<lambda>w. draw_page_header be L font_name (page_count w) (total_fonts * 2) w) (\<lambda>_.
      and_then (calls be [SetFont (lit ''Helvetica'') 9,
                         DrawString (margin L) (page_height L - 0.75 * inch L)
                           (lit ''Each cell shows: Key name (top), Decimal code, Hex code, Symbol (center)'')]) (\<lambda>_.
      and_then (draw_character_grid be L font_id font_name 32 255) (\<lambda>_.
      and_then next_page (\<lambda>_.
      and_then (call be ShowPage) (\<lambda>_.
      and_then (\<lambda>w. draw_page_header be L font_name (page_count w) (total_fonts * 2) w) (\<lambda>_.
      and_then (calls be [SetFont (lit ''Helvetica'') 9,
                         DrawString (margin L) (page_height L - 0.75 * inch L)
                           (lit ''Extended Unicode (256-511) - Each cell shows: Unicode ID (top), Decimal code, Symbol (center)'')]) (\<lambda>_.
      and_then (draw_extended_grid be L font_id font_name 256 511) (\<lambda>_.
      ok ())))))))))))))"

text \<open>
  One round of the loop, lines 263 to 303: the lookup of the path is outside the \<open>try\<close>,
  the handler prints the error and goes on with the next font.
\<close>

definition process_font ::
  "backend \<Rightarrow> layout \<Rightarrow> (pystr \<times> pystr) list \<Rightarrow> int \<Rightarrow> int \<times> pystr \<Rightarrow> unit act" where
  "process_font be L font_dict total_fonts entry =
     (case entry of (font_idx, font_name) \<Rightarrow>
        and_then (lift (case map_of font_dict font_name of
                          None \<Rightarrow> Inl KeyError
                        | Some font_path \<Rightarrow> Inr font_path)) (\<lambda>font_path.
        catch (font_pages be L total_fonts font_idx font_name font_path)
          (\<lambda>e. print (lit ''  ERROR processing '' @ font_name @ lit '': '' @ str_of_error e))))"

fun font_loop ::
  "backend \<Rightarrow> layout \<Rightarrow> (pystr \<times> pystr) list \<Rightarrow> int \<Rightarrow> (int \<times> pystr) list \<Rightarrow> unit act" where
  "font_loop be L font_dict total_fonts [] = ok ()"
| "font_loop be L font_dict total_fonts (entry # entries) =
     and_then (process_font be L font_dict total_fonts entry) (\<lambda>_.
       font_loop be L font_dict total_fonts entries)"

definition py_enumerate :: "'a list \<Rightarrow> (int \<times> 'a) list" where
  "py_enumerate xs = zip (py_range 0 (int (length xs))) xs"

section \<open>The font locator\<close>

text \<open>
  The operating system as the script sees it: whether the library can be imported or
  installed, the environment variable, and the functions of \<open>os\<close> and \<open>os.path\<close> whose
  results depend on the platform and on the files present. \<open>os_walk\<close> gives the triples
  \<open>(root, dirs, files)\<close> in the order the walk yields them.
\<close>

record os_env =
  importable :: bool
  pip_install :: bool
  programfiles :: "pystr option"
  os_join :: "pystr list \<Rightarrow> pystr"
  os_dirname :: "pystr \<Rightarrow> pystr"
  os_exists :: "pystr \<Rightarrow> bool"
  os_makedirs :: "pystr \<Rightarrow> error option"
  os_walk :: "pystr \<Rightarrow> (pystr \<times> pystr list \<times> pystr list) list"

text \<open>
  \<open>str.lower\<close> on the letters A to Z; no other character becomes one of the characters
  of \<open>.ttf\<close> or \<open>.otf\<close> in lower case, so \<open>endswith\<close> sees the same. \<open>s.endswith(suffix)\<close>.
\<close>

definition lower :: "pystr \<Rightarrow> pystr" where
  "lower s = map (\<lambda>c. if 65 \<le> c \<and> c \<le> 90 then c + 32 else c) s"

definition endswith :: "pystr \<Rightarrow> pystr \<Rightarrow> bool" where
  "endswith s suffix =
     (length suffix \<le> length s \<and> drop (length s - length suffix) s = suffix)"

definition is_font_file :: "pystr \<Rightarrow> bool" where
  "is_font_file file = (endswith (lower file) (lit ''.ttf'') \<or> endswith (lower file) (lit ''.otf''))"

text \<open>
  \<open>os.path.splitext(file)[0]\<close> for a file name as \<open>os.walk\<close> gives it, with no directory
  separator in it: the name is cut at its last period, unless only periods come before
  that period, in which case the whole name is the root and the extension is empty.
\<close>

definition rfind :: "nat \<Rightarrow> pystr \<Rightarrow> nat option" where
  "rfind c s =
     (if c \<in> set s then Some (length s - 1 - length (takeWhile (\<lambda>x. x \<noteq> c) (rev s)))
      else None)"

definition splitext_root :: "pystr \<Rightarrow> pystr" where
  "splitext_root p =
     (case rfind (of_char CHR ''.'') p of
        None \<Rightarrow> p
      | Some dotIndex \<Rightarrow>
          if list_all (\<lambda>c. c = of_char CHR ''.'') (take dotIndex p) then p
          else take dotIndex p)"

text \<open>
  Lines 88 to 99. The dictionary keeps its entries in insertion order; a name is
  entered once, with the path it was first seen under.
\<close>

definition add_file :: "os_env \<Rightarrow> pystr \<Rightarrow> (pystr \<times> pystr) list \<Rightarrow> pystr \<Rightarrow> (pystr \<times> pystr) list" where
  "add_file os root_dir font_dict file =
     (if is_font_file file then
        let font_path = os_join os [root_dir, file];
            font_name = splitext_root file
        in if map_of font_dict font_name = None then font_dict @ [(font_name, font_path)]
           else font_dict
      else font_dict)"

definition scan_dir :: "os_env \<Rightarrow> (pystr \<times> pystr) list \<Rightarrow> pystr \<Rightarrow> (pystr \<times> pystr) list" where
  "scan_dir os font_dict font_dir =
     (if os_exists os font_dir then
        foldl (\<lambda>d entry. case entry of (root_dir, dirs, files) \<Rightarrow> foldl (add_file os root_dir) d files)
          font_dict (os_walk os font_dir)
      else font_dict)"

definition scan_fonts :: "os_env \<Rightarrow> pystr list \<Rightarrow> (pystr \<times> pystr) list" where
  "scan_fonts os font_dirs = foldl (scan_dir os) [] font_dirs"

definition sorted_fonts :: "(pystr \<times> pystr) list \<Rightarrow> pystr list" where
  "sorted_fonts font_dict = sort (map fst font_dict)"

definition backslash :: pystr where
  "backslash = [92]"

definition arcgis_font_dirs :: "os_env \<Rightarrow> pystr list" where
  "arcgis_font_dirs os =
     [lit ''C:'' @ backslash @ lit ''Program Files'' @ backslash @ lit ''ArcGIS'' @ backslash
        @ lit ''Pro'' @ backslash @ lit ''Resources'' @ backslash @ lit ''Fonts'',
      lit ''C:'' @ backslash @ lit ''Program Files (x86)'' @ backslash @ lit ''ArcGIS''
        @ backslash @ lit ''Desktop10.8'' @ backslash @ lit ''Fonts'',
      os_join os [case programfiles os of
                    None \<Rightarrow> lit ''C:'' @ backslash @ lit ''Program Files''
                  | Some dir \<Rightarrow> dir,
                  lit ''ArcGIS'', lit ''Pro'', lit ''Resources'', lit ''Fonts'']]"

section \<open>The script\<close>

definition output_pdf :: pystr where
  "output_pdf = lit ''C:'' @ backslash @ lit ''Temp'' @ backslash
                 @ lit ''ESRI_Font_Character_Catalog.pdf''"

text \<open>
  How a run ends: \<open>sys.exit(n)\<close>, an exception nobody handles, or the last line of the
  script. The state is the one reached at that moment.
\<close>

datatype outcome = Exited int world | Uncaught error world | Completed world

text \<open>
  The script from top to bottom: the dependency check (lines 46 to 56), the output
  directory (69 to 71), the scan (88 to 111), the canvas (119), the font loop and
  \<open>save\<close> (306). Of the printed lines, the model keeps those of the font loop.
\<close>

definition write_catalog :: "backend \<Rightarrow> layout \<Rightarrow> (pystr \<times> pystr) list \<Rightarrow> pystr list \<Rightarrow> unit act" where
  "write_catalog be L font_dict fonts =
     and_then (call be (NewCanvas output_pdf (page_width L) (page_height L))) (\<lambda>_.
     and_then (font_loop be L font_dict (int (length fonts)) (py_enumerate fonts)) (\<lambda>_.
     call be Save))"

definition script :: "os_env \<Rightarrow> backend \<Rightarrow> layout \<Rightarrow> pystr list \<Rightarrow> outcome" where
  "script os be L registered0 =
     (let w0 = \<lparr>canvas = [], registered = registered0, console = [], page_count = 0\<rparr>;
          output_dir = os_dirname os output_pdf;
          font_dict = scan_fonts os (arcgis_font_dirs os);
          fonts = sorted_fonts font_dict;
          total_fonts = int (length fonts)
      in if \<not> (importable os \<or> pip_install os) then Exited 1 w0
         else if \<not> os_exists os output_dir \<and> os_makedirs os output_dir \<noteq> None
         then Uncaught (the (os_makedirs os output_dir)) w0
         else if total_fonts = 0 then Exited 1 w0
         else (case write_catalog be L font_dict fonts w0 of
                 (Inl e, w) \<Rightarrow> Uncaught e w
               | (Inr u, w) \<Rightarrow> Completed w))"

section \<open>Reference notions\<close>

text \<open>
  What the specification's words mean, written independently of the code above: the
  \<open>k\<close>-digit upper-case hexadecimal numeral of a number, the value of a decimal numeral,
  and what a decimal numeral is. A hexadecimal digit below ten is the character that
  many places after \<open>0\<close> (code 48), and from ten on the character that many places
  after \<open>A\<close> (code 65).
\<close>

definition hex_digit :: "nat \<Rightarrow> nat" where
  "hex_digit d = (if d < 10 then 48 + d else 65 + (d - 10))"

definition hex_digits :: "nat \<Rightarrow> int \<Rightarrow> pystr" where
  "hex_digits k code = map (\<lambda>i. hex_digit (nat (code div 16 ^ i mod 16))) (rev [0..<k])"

definition decimal_value :: "pystr \<Rightarrow> nat" where
  "decimal_value s = foldl (\<lambda>acc c. 10 * acc + (c - 48)) 0 s"

definition is_decimal :: "pystr \<Rightarrow> bool" where
  "is_decimal s = (s \<noteq> [] \<and> list_all (\<lambda>c. 48 \<le> c \<and> c \<le> 57) s)"

text \<open>
  What an action adds to the canvas when it is run in a state, and the calls among
  them that draw the border of a cell. \<open>cell_rect\<close> is the border the specification
  gives a code point: column and row from the offset to the start of the range, the
  origin at the left margin and 0.9 inch below the top of the page, rows going down.
\<close>

definition drawn :: "'a act \<Rightarrow> world \<Rightarrow> event list" where
  "drawn m w = drop (length (canvas w)) (canvas (snd (m w)))"

fun is_rect :: "draw_op \<Rightarrow> bool" where
  "is_rect (Rect x y width height) = True"
| "is_rect other = False"

definition rect_calls :: "event list \<Rightarrow> draw_op list" where
  "rect_calls evs = filter is_rect (map fst evs)"

definition cell_rect :: "layout \<Rightarrow> int \<Rightarrow> int \<Rightarrow> draw_op" where
  "cell_rect L start_code code =
     (let row = (code - start_code) div 16;
          col = (code - start_code) mod 16;
          left = 0.3 * inch L + real_of_int col * (0.5 * inch L);
          top = (page_height L - 0.9 * inch L) - real_of_int row * (0.5 * inch L)
      in Rect left (top - 0.5 * inch L) (0.5 * inch L) (0.5 * inch L))"


text \<open>
  The state of the pen as the calls that returned have left it, and the texts drawn
  centred, each with the pen it was drawn with. A glyph of the font under test is a
  centred text drawn in that font at the glyph size; a placeholder is the dash drawn
  in grey 8 point Helvetica.
\<close>

record pen =
  pen_font :: pystr
  pen_size :: int
  pen_fill :: "real \<times> real \<times> real"

definition move_pen :: "pen \<Rightarrow> event \<Rightarrow> pen" where
  "move_pen p ev =
     (if snd ev then
        (case fst ev of
           SetFont f s \<Rightarrow> p\<lparr>pen_font := f, pen_size := s\<rparr>
         | SetFillColorRGB r g b \<Rightarrow> p\<lparr>pen_fill := (r, g, b)\<rparr>
         | other \<Rightarrow> p)
      else p)"

fun centred_texts :: "pen \<Rightarrow> event list \<Rightarrow> (pen \<times> pystr) list" where
  "centred_texts p [] = []"
| "centred_texts p (ev # evs) =
     (if snd ev then (case fst ev of DrawCentredString x y s \<Rightarrow> [(p, s)] | other \<Rightarrow> []) else [])
       @ centred_texts (move_pen p ev) evs"

definition is_glyph :: "pystr \<Rightarrow> pen \<times> pystr \<Rightarrow> bool" where
  "is_glyph font_id t = (pen_font (fst t) = font_id \<and> pen_size (fst t) = 20)"

definition is_placeholder :: "pen \<times> pystr \<Rightarrow> bool" where
  "is_placeholder t =
     (snd t = [8212] \<and> pen_font (fst t) = lit ''Helvetica'' \<and> pen_size (fst t) = 8
        \<and> pen_fill (fst t) = (0.8, 0.8, 0.8))"

definition glyphs_drawn :: "pystr \<Rightarrow> pen \<Rightarrow> event list \<Rightarrow> nat" where
  "glyphs_drawn font_id p evs = length (filter (is_glyph font_id) (centred_texts p evs))"

definition placeholders_drawn :: "pen \<Rightarrow> event list \<Rightarrow> nat" where
  "placeholders_drawn p evs = length (filter is_placeholder (centred_texts p evs))"

text \<open>
  A backend on which nothing but the drawing of a glyph can fail: selecting a font at
  the glyph size, and drawing a centred text other than the dash.
\<close>

definition glyph_faults_only :: "backend \<Rightarrow> bool" where
  "glyph_faults_only be =
     (\<forall>h op e. raises be h op = Some e \<longrightarrow>
        (\<exists>f. op = SetFont f 20) \<or> (\<exists>x y s. op = DrawCentredString x y s \<and> s \<noteq> [8212]))"

text \<open>Concrete collaborators for the examples.\<close>

definition quiet_backend :: backend where
  "quiet_backend =
     \<lparr>raises = (\<lambda>h op. None), load_font = (\<lambda>font_id font_path. None),
      now = (\<lambda>h. lit ''2024-01-01 00:00'')\<rparr>"

definition no_glyph_B :: backend where
  "no_glyph_B =
     \<lparr>raises = (\<lambda>h op. case op of
                  DrawCentredString x y s \<Rightarrow>
                    if s = lit ''B'' then Some (Raised (lit ''no glyph'')) else None
                | other \<Rightarrow> None),
      load_font = (\<lambda>font_id font_path. None),
      now = (\<lambda>h. lit ''2024-01-01 00:00'')\<rparr>"

definition fresh_world :: world where
  "fresh_world = \<lparr>canvas = [], registered = [], console = [], page_count = 0\<rparr>"

text \<open>
  Tools for reasoning about actions. \<open>does R m\<close>: run in any state, \<open>m\<close> changes nothing
  but the canvas, to which it appends events that stand in relation \<open>R\<close> to its result.
\<close>

definition does :: "((error + 'a) \<Rightarrow> event list \<Rightarrow> bool) \<Rightarrow> 'a act \<Rightarrow> bool" where
  "does R m = (\<forall>w. \<exists>evs. snd (m w) = w\<lparr>canvas := canvas w @ evs\<rparr> \<and> R (fst (m w)) evs)"

text \<open>\<open>emits Q m\<close>: every call that \<open>m\<close> makes satisfies \<open>Q\<close>.\<close>

definition emits :: "(draw_op \<Rightarrow> bool) \<Rightarrow> 'a act \<Rightarrow> bool" where
  "emits Q m = does (\<lambda>r evs. list_all (\<lambda>ev. Q (fst ev)) evs) m"

text \<open>
  The events of a sequence of calls: all of them returned, or those before the first
  that raised, and that one.
\<close>

definition calls_events :: "draw_op list \<Rightarrow> error + unit \<Rightarrow> event list \<Rightarrow> bool" where
  "calls_events ops r evs =
     ((r = Inr () \<and> evs = map (\<lambda>op. (op, True)) ops) \<or>
      (\<exists>e pre op post. r = Inl e \<and> ops = pre @ op # post
         \<and> evs = map (\<lambda>op. (op, True)) pre @ [(op, False)]))"

text \<open>
  What one round of a grid loop leaves on the canvas: the border of its cell, unless it
  raised before drawing it. What a whole loop leaves: the borders of the first \<open>k\<close> code
  points, all of them when it returns.
\<close>

definition cell_rel :: "draw_op \<Rightarrow> error + 'a \<Rightarrow> event list \<Rightarrow> bool" where
  "cell_rel rect r evs =
     (rect_calls evs = [rect] \<or> ((\<exists>e. r = Inl e) \<and> rect_calls evs = []))"

definition loop_rel :: "(int \<Rightarrow> draw_op) \<Rightarrow> int list \<Rightarrow> error + 'a \<Rightarrow> event list \<Rightarrow> bool" where
  "loop_rel f codes r evs =
     (\<exists>k \<le> length codes. rect_calls evs = map f (take k codes)
        \<and> ((\<exists>n. r = Inr n) \<longrightarrow> k = length codes))"

text \<open>An event is quiet when it is not a centred text that was drawn.\<close>

definition quiet :: "event \<Rightarrow> bool" where
  "quiet ev = (\<not> (snd ev \<and> (\<exists>x y s. fst ev = DrawCentredString x y s)))"

text \<open>
  The account of a stretch of events: the counter moves with the glyphs drawn, and
  there is a glyph or a placeholder for every cell border, whatever the pen was before.
\<close>

definition account :: "pystr \<Rightarrow> nat \<Rightarrow> nat \<Rightarrow> event list \<Rightarrow> bool" where
  "account font_id n0 n evs =
     (\<forall>p. n = n0 + glyphs_drawn font_id p evs
        \<and> length (rect_calls evs) = glyphs_drawn font_id p evs + placeholders_drawn p evs)"

text \<open>The same for the glyph of one cell, and for one round of the loop.\<close>

definition gcount :: "pystr \<Rightarrow> nat \<Rightarrow> nat \<Rightarrow> event list \<Rightarrow> bool" where
  "gcount font_id n n' evs =
     (\<forall>p. n' = n + glyphs_drawn font_id p evs
        \<and> glyphs_drawn font_id p evs + placeholders_drawn p evs = 1)"

fun is_centred :: "draw_op \<Rightarrow> bool" where
  "is_centred (DrawCentredString x y s) = True"
| "is_centred other = False"

definition ccount :: "pystr \<Rightarrow> nat \<Rightarrow> error + nat step \<Rightarrow> event list \<Rightarrow> bool" where
  "ccount font_id n r evs = (\<forall>n'. r = Inr (Next n') \<longrightarrow> gcount font_id n n' evs)"

definition cell_account :: "pystr \<Rightarrow> nat \<Rightarrow> error + nat step \<Rightarrow> event list \<Rightarrow> bool" where
  "cell_account font_id n r evs =
     (r \<noteq> Inr Break \<and> (\<forall>n'. r = Inr (Next n') \<longrightarrow> account font_id n n' evs))"

text \<open>\<open>succeeds m\<close>: the action returns in every state. A call is \<open>sure\<close> when it is none of
  those that \<open>glyph_faults_only\<close> allows to raise.\<close>

definition succeeds :: "'a act \<Rightarrow> bool" where
  "succeeds m = (\<forall>w. \<exists>x. fst (m w) = Inr x)"

definition sure :: "draw_op \<Rightarrow> bool" where
  "sure op = (\<not> (\<exists>f. op = SetFont f 20) \<and> \<not> (\<exists>x y s. op = DrawCentredString x y s \<and> s \<noteq> [8212]))"

definition blank_pen :: pen where
  "blank_pen = \<lparr>pen_font = [], pen_size = 0, pen_fill = (0, 0, 0)\<rparr>"

text \<open>
  The font files a scan comes across, in the order it meets them, each with the name
  derived from it and its path; and the entries of such a list that are the first with
  their name.
\<close>

definition walk_candidates :: "os_env \<Rightarrow> pystr \<times> pystr list \<times> pystr list \<Rightarrow> (pystr \<times> pystr) list" where
  "walk_candidates os entry =
     (case entry of (root_dir, dirs, files) \<Rightarrow>
        map (\<lambda>file. (splitext_root file, os_join os [root_dir, file])) (filter is_font_file files))"

definition dir_candidates :: "os_env \<Rightarrow> pystr \<Rightarrow> (pystr \<times> pystr) list" where
  "dir_candidates os font_dir =
     (if os_exists os font_dir then concat (map (walk_candidates os) (os_walk os font_dir))
      else [])"

definition font_candidates :: "os_env \<Rightarrow> pystr list \<Rightarrow> (pystr \<times> pystr) list" where
  "font_candidates os font_dirs = concat (map (dir_candidates os) font_dirs)"

fun keep_first :: "('k \<times> 'v) list \<Rightarrow> ('k \<times> 'v) list" where
  "keep_first [] = []"
| "keep_first (kv # rest) = kv # keep_first (filter (\<lambda>e. fst e \<noteq> fst kv) rest)"

text \<open>Entering a pair into a dictionary that keeps what it has.\<close>

definition enter :: "(pystr \<times> pystr) list \<Rightarrow> pystr \<times> pystr \<Rightarrow> (pystr \<times> pystr) list" where
  "enter font_dict kv = (if map_of font_dict (fst kv) = None then font_dict @ [kv] else font_dict)"

text \<open>
  An example of a machine: one directory \<open>fonts\<close> with the files \<open>.ttf\<close>, \<open>Foo.TTF\<close> and
  \<open>Foo.otf\<close>, and none of the directories the script looks into.
\<close>

definition hidden_font_os :: os_env where
  "hidden_font_os =
     \<lparr>importable = True, pip_install = True, programfiles = None,
      os_join = (\<lambda>parts. concat (map (\<lambda>p. lit ''/'' @ p) parts)),
      os_dirname = (\<lambda>p. lit ''C:''),
      os_exists = (\<lambda>p. p = lit ''fonts''),
      os_makedirs = (\<lambda>p. None),
      os_walk = (\<lambda>p. [(lit ''fonts'', [], [lit ''.ttf'', lit ''Foo.TTF'', lit ''Foo.otf''])])\<rparr>"

text \<open>The exit status of the process and the state it leaves, for each way a run ends.\<close>

fun exit_status :: "outcome \<Rightarrow> int" where
  "exit_status (Exited n w) = n"
| "exit_status (Uncaught e w) = 1"
| "exit_status (Completed w) = 0"

fun final_world :: "outcome \<Rightarrow> world" where
  "final_world (Exited n w) = w"
| "final_world (Uncaught e w) = w"
| "final_world (Completed w) = w"

text \<open>
  The pages of a document, read off the calls made: a page begins where the header is
  begun, which is the one place that selects 14 point bold Helvetica (line 130), and a
  page break is a \<open>showPage\<close> that returned. \<open>alternating n\<close> is what \<open>n\<close> pages with one
  break between neighbours look like.
\<close>

datatype mark = PageBegin | PageBreak

definition mark_of :: "event \<Rightarrow> mark list" where
  "mark_of ev =
     (case fst ev of
        SetFont f s \<Rightarrow> if f = lit ''Helvetica-Bold'' \<and> s = 14 then [PageBegin] else []
      | ShowPage \<Rightarrow> if snd ev then [PageBreak] else []
      | other \<Rightarrow> [])"

definition page_marks :: "event list \<Rightarrow> mark list" where
  "page_marks evs = concat (map mark_of evs)"

fun alternating :: "nat \<Rightarrow> mark list" where
  "alternating 0 = []"
| "alternating (Suc 0) = [PageBegin]"
| "alternating (Suc (Suc n)) = alternating (Suc n) @ [PageBreak, PageBegin]"

definition pages_begun :: "event list \<Rightarrow> nat" where
  "pages_begun evs = length (filter (\<lambda>m. m = PageBegin) (page_marks evs))"

text \<open>
  \<open>triple P m Q E\<close>: from a state with \<open>P\<close>, the action \<open>m\<close> returns \<open>x\<close> in a state with
  \<open>Q x\<close> or raises in a state with \<open>E\<close>.
\<close>

definition triple ::
  "(world \<Rightarrow> bool) \<Rightarrow> 'a act \<Rightarrow> ('a \<Rightarrow> world \<Rightarrow> bool) \<Rightarrow> (world \<Rightarrow> bool) \<Rightarrow> bool" where
  "triple P m Q E =
     (\<forall>w. P w \<longrightarrow> (case fst (m w) of Inl e \<Rightarrow> E (snd (m w)) | Inr x \<Rightarrow> Q x (snd (m w))))"

text \<open>A call is plain when it neither begins nor breaks a page.\<close>

definition plain :: "draw_op \<Rightarrow> bool" where
  "plain op = (op \<noteq> ShowPage \<and> op \<noteq> SetFont (lit ''Helvetica-Bold'') 14)"

text \<open>
  The page counter and the pages on the canvas between two rounds of the font loop
  (\<open>paged\<close>), after the counter has been raised (\<open>counted\<close>), when the new page may begin
  (\<open>ready\<close>) and while a page is being drawn (\<open>on_page\<close>).
\<close>

definition paged :: "world \<Rightarrow> bool" where
  "paged w =
     ((page_count w = 0 \<and> page_marks (canvas w) = [])
      \<or> (1 \<le> page_count w \<and> (\<exists>n\<ge>1. page_marks (canvas w) = alternating n)))"

definition counted :: "world \<Rightarrow> bool" where
  "counted w =
     ((page_count w = 1 \<and> page_marks (canvas w) = [])
      \<or> (2 \<le> page_count w \<and> (\<exists>n\<ge>1. page_marks (canvas w) = alternating n)))"

definition ready :: "world \<Rightarrow> bool" where
  "ready w =
     ((page_count w = 1 \<and> page_marks (canvas w) = [])
      \<or> (2 \<le> page_count w \<and> (\<exists>n\<ge>1. page_marks (canvas w) = alternating n @ [PageBreak])))"

definition on_page :: "world \<Rightarrow> bool" where
  "on_page w = (1 \<le> page_count w \<and> (\<exists>n\<ge>1. page_marks (canvas w) = alternating n))"

text \<open>The header after its first call.\<close>

definition header_rest :: "backend \<Rightarrow> layout \<Rightarrow> pystr \<Rightarrow> int \<Rightarrow> int \<Rightarrow> unit act" where
  "header_rest be L font_name page_num total_pages =
     and_then (calls be [DrawString (margin L) (page_height L - 0.3 * inch L)
                          (lit ''Font: '' @ font_name),
                        SetFont (lit ''Helvetica'') 8,
                        DrawString (page_width L - 2 * inch L) (page_height L - 0.3 * inch L)
                          (lit ''Page '' @ str_int page_num @ lit '' of '' @ str_int total_pages)]) (\<lambda>_.
     (\<lambda>w. calls be [DrawString (margin L) (page_height L - 0.5 * inch L)
                      (lit ''Generated: '' @ now be (canvas w)),
                    Line (margin L) (page_height L - 0.6 * inch L)
                      (page_width L - margin L) (page_height L - 0.6 * inch L)] w))"

definition broken :: "world \<Rightarrow> bool" where
  "broken w = (2 \<le> page_count w \<and> (\<exists>n\<ge>1. page_marks (canvas w) = alternating n))"

text \<open>The state after \<open>k\<close> pages of a run in which nothing has failed.\<close>

definition at_page :: "nat \<Rightarrow> world \<Rightarrow> bool" where
  "at_page k w = (page_count w = int k \<and> page_marks (canvas w) = alternating k)"

definition to_page :: "nat \<Rightarrow> world \<Rightarrow> bool" where
  "to_page k w =
     (page_count w = int k + 1
      \<and> page_marks (canvas w) = (if k = 0 then [] else alternating k @ [PageBreak]))"

definition never :: "world \<Rightarrow> bool" where
  "never w = False"

text \<open>
  An example of a machine with one font file, \<open>Esri.ttf\<close>, in the first directory the
  script looks into.
\<close>

definition one_font_os :: os_env where
  "one_font_os =
     \<lparr>importable = True, pip_install = False, programfiles = None,
      os_join = (\<lambda>parts. concat (map (\<lambda>p. backslash @ p) parts)),
      os_dirname = (\<lambda>p. lit ''C:'' @ backslash @ lit ''Temp''),
      os_exists = (\<lambda>p. p = lit ''C:'' @ backslash @ lit ''Program Files'' @ backslash
         @ lit ''ArcGIS'' @ backslash @ lit ''Pro'' @ backslash @ lit ''Resources''
         @ backslash @ lit ''Fonts''),
      os_makedirs = (\<lambda>p. None),
      os_walk = (\<lambda>p. [(p, [], [lit ''readme.txt'', lit ''Esri.ttf''])])\<rparr>"

text \<open>
  A call shows the total \<open>T\<close> when it is not a text that begins with \<open>Page\<close> and a
  space, or is the text \<open>Page k of T\<close> for some number \<open>k\<close>.
\<close>

definition shows_total :: "int \<Rightarrow> draw_op \<Rightarrow> bool" where
  "shows_total T op =
     (case op of
        DrawString x y s \<Rightarrow>
          take 5 s = lit ''Page '' \<longrightarrow>
            (\<exists>k. s = lit ''Page '' @ str_int k @ lit '' of '' @ str_int T)
      | other \<Rightarrow> True)"

definition totals :: "int \<Rightarrow> world \<Rightarrow> bool" where
  "totals T w = list_all (\<lambda>ev. shows_total T (fst ev)) (canvas w)"

text \<open>A backend on which no font can be loaded, and one on which no line can be drawn.\<close>

definition no_fonts_load :: backend where
  "no_fonts_load =
     \<lparr>raises = (\<lambda>h op. None),
      load_font = (\<lambda>font_id font_path. Some (Raised (lit ''not a font''))),
      now = (\<lambda>h. lit ''2024-01-01 00:00'')\<rparr>"

definition no_lines :: backend where
  "no_lines =
     \<lparr>raises = (\<lambda>h op. case op of Line x y x' y' \<Rightarrow> Some (Raised (lit ''no line'')) | other \<Rightarrow> None),
      load_font = (\<lambda>font_id font_path. None),
      now = (\<lambda>h. lit ''2024-01-01 00:00'')\<rparr>"

text \<open>
  The texts of a stretch of events: what \<open>drawString\<close> has written, in the order of the
  calls, counting the calls that returned. The texts of the basic page and of the
  extended page of a font are those of the two grids as the font loop calls them
  (lines 287 and 299).
\<close>

definition text_of :: "event \<Rightarrow> pystr list" where
  "text_of ev = (case fst ev of DrawString x y s \<Rightarrow> if snd ev then [s] else [] | other \<Rightarrow> [])"

definition texts_drawn :: "event list \<Rightarrow> pystr list" where
  "texts_drawn evs = concat (map text_of evs)"

definition basic_page_texts :: "backend \<Rightarrow> layout \<Rightarrow> pystr \<Rightarrow> pystr \<Rightarrow> world \<Rightarrow> pystr list" where
  "basic_page_texts be L font_id font_name w =
     texts_drawn (drawn (draw_character_grid be L font_id font_name 32 255) w)"

definition extended_page_texts :: "backend \<Rightarrow> layout \<Rightarrow> pystr \<Rightarrow> pystr \<Rightarrow> world \<Rightarrow> pystr list" where
  "extended_page_texts be L font_id font_name w =
     texts_drawn (drawn (draw_extended_grid be L font_id font_name 256 511) w)"

text \<open>
  A text shows a number when it is its decimal numeral: digits only, no leading
  zero, and the number as its value.
\<close>

definition shows_code :: "int \<Rightarrow> pystr \<Rightarrow> bool" where
  "shows_code code s = (is_decimal s \<and> (hd s \<noteq> 48 \<or> s = [48]) \<and> int (decimal_value s) = code)"

text \<open>
  \<open>shown e\<close>: the texts of an action are the list \<open>e\<close> when it returns, and the first
  few of \<open>e\<close> when it raises.
\<close>

fun is_text :: "draw_op \<Rightarrow> bool" where
  "is_text (DrawString x y s) = True"
| "is_text other = False"

definition shown :: "pystr list \<Rightarrow> error + 'a \<Rightarrow> event list \<Rightarrow> bool" where
  "shown e r evs = ((\<exists>j. texts_drawn evs = take j e) \<and> ((\<exists>x. r = Inr x) \<longrightarrow> texts_drawn evs = e))"

text \<open>The label that the basic page computes for a code point from 0 to 65535.\<close>

definition basic_label :: "int \<Rightarrow> pystr" where
  "basic_label code =
     (case map_of special_chars code of
        Some name \<Rightarrow> name
      | None \<Rightarrow> if code < 127 then [nat code] else lit ''U+'' @ hex_digits 4 code)"

text \<open>A backend on which no centred text can be drawn, neither a glyph nor the dash.\<close>

definition no_centred :: backend where
  "no_centred =
     \<lparr>raises = (\<lambda>h op. case op of
                  DrawCentredString x y s \<Rightarrow> Some (Raised (lit ''no text''))
                | other \<Rightarrow> None),
      load_font = (\<lambda>font_id font_path. None),
      now = (\<lambda>h. lit ''2024-01-01 00:00'')\<rparr>"

text \<open>
  What the font loop prints for one font: the progress line (line 273), which comes
  when the registration of the font has returned, and the error line of the handler
  (line 302). The output for a font is the progress line, or the progress line and an
  error line, or an error line alone.
\<close>

definition progress_line :: "int \<Rightarrow> int \<Rightarrow> pystr \<Rightarrow> pystr" where
  "progress_line total_fonts font_idx font_name =
     lit ''Processing '' @ str_int (font_idx + 1) @ lit ''/'' @ str_int total_fonts
       @ lit '': '' @ font_name"

definition error_line :: "pystr \<Rightarrow> error \<Rightarrow> pystr" where
  "error_line font_name e = lit ''  ERROR processing '' @ font_name @ lit '': '' @ str_of_error e"

definition font_log :: "int \<Rightarrow> int \<times> pystr \<Rightarrow> pystr list \<Rightarrow> bool" where
  "font_log total_fonts entry lines =
     (lines = [progress_line total_fonts (fst entry) (snd entry)]
      \<or> (\<exists>e. lines = [progress_line total_fonts (fst entry) (snd entry), error_line (snd entry) e])
      \<or> (\<exists>e. lines = [error_line (snd entry) e]))"

text \<open>\<open>said c\<close>: the lines printed so far are \<open>c\<close>; \<open>said_upto c line\<close>: they are \<open>c\<close>, or \<open>c\<close> and \<open>line\<close>.\<close>

definition said :: "pystr list \<Rightarrow> world \<Rightarrow> bool" where
  "said c w = (console w = c)"

definition said_upto :: "pystr list \<Rightarrow> pystr \<Rightarrow> world \<Rightarrow> bool" where
  "said_upto c line w = (console w = c \<or> console w = c @ [line])"

section \<open>Formatting and labels\<close>

lemma length_lit [simp]: "length (lit s) = length s"
  by (simp add: lit_def)

lemma digits_of_small: "n < b \<Longrightarrow> digits_of b n = [digit_char n]"
  by (simp add: digits_of.simps)

lemma digits_of_step: "2 \<le> b \<Longrightarrow> b \<le> n \<Longrightarrow> digits_of b n = digits_of b (n div b) @ [digit_char (n mod b)]"
  by (subst digits_of.simps) simp

lemma digit_char_0: "digit_char 0 = of_char CHR ''0''"
  by (simp add: digit_char_def lit_def)



lemma replicate_small:
  "replicate (Suc 0) x = [x]" "replicate 2 x = [x, x]" "replicate 3 x = [x, x, x]"
  by (simp_all add: numeral_2_eq_2 numeral_3_eq_3)

lemma hex4_nat:
  assumes "n < 65536"
  shows "zero_pad 4 (digits_of 16 n) = [digit_char (n div 4096 mod 16), digit_char (n div 256 mod 16), digit_char (n div 16 mod 16), digit_char (n mod 16)]"
proof -
  consider "n < 16" | "16 \<le> n" "n < 256" | "256 \<le> n" "n < 4096" | "4096 \<le> n"
    by linarith
  then show ?thesis
  proof cases
    case 1
    then show ?thesis
      by (simp add: digits_of_small zero_pad_def digit_char_0 replicate_small)
  next
    case 2
    then have a: "n div 16 < 16" by simp
    have b: "n div 256 = 0" "n div 4096 = 0" "n div 16 mod 16 = n div 16" using 2 by simp_all
    show ?thesis using 2(1)
      by (simp add: digits_of_step digits_of_small [OF a] zero_pad_def digit_char_0 replicate_small b)
  next
    case 3
    then have a: "16 \<le> n" "16 \<le> n div 16" "n div 16 div 16 < 16" by simp_all
    have b: "n div 256 = n div 16 div 16" "n div 4096 = 0"
      using 3 by (simp_all add: div_mult2_eq)
    have c: "n div 16 div 16 mod 16 = n div 16 div 16" using a(3) by simp
    show ?thesis
      by (simp add: digits_of_step [OF _ a(1)] digits_of_step [OF _ a(2)] digits_of_small [OF a(3)] zero_pad_def digit_char_0 b c replicate_small)
  next
    case 4
    then have a: "16 \<le> n" "16 \<le> n div 16" "16 \<le> n div 16 div 16" "n div 16 div 16 div 16 < 16"
      using assms by simp_all
    have b: "n div 256 = n div 16 div 16" "n div 4096 = n div 16 div 16 div 16"
      by (simp_all add: div_mult2_eq)
    have c: "n div 16 div 16 div 16 mod 16 = n div 16 div 16 div 16" using a(4) by simp
    show ?thesis
      by (simp add: digits_of_step [OF _ a(1)] digits_of_step [OF _ a(2)] digits_of_step [OF _ a(3)] digits_of_small [OF a(4)] zero_pad_def b c)
  qed
qed


lemma digit_char_hex: "d < 16 \<Longrightarrow> digit_char d = hex_digit d"
proof -
  assume "d < 16"
  then have "d \<in> set [0..<16]" by simp
  moreover have "\<forall>k \<in> set [0..<16]. digit_char k = hex_digit k"
    by (simp add: upt_rec digit_char_def hex_digit_def lit_def)
  ultimately show ?thesis by blast
qed

lemma format_X_4:
  assumes "0 \<le> code" "code < 65536"
  shows "format_X 4 code = hex_digits 4 code"
proof -
  have n: "nat code < 65536" using assms by simp
  have u: "rev [0..<4] = [3, 2, 1, 0::nat]" by (simp add: upt_rec)
  show ?thesis
    using assms(1) hex4_nat [OF n]
    by (simp add: format_X_def hex_digits_def u nat_div_distrib nat_mod_distrib digit_char_hex)
qed

lemma hex2_nat:
  assumes "n < 256"
  shows "zero_pad 2 (digits_of 16 n) = [digit_char (n div 16 mod 16), digit_char (n mod 16)]"
proof (cases "n < 16")
  case True
  then show ?thesis
    by (simp add: digits_of_small zero_pad_def digit_char_0 replicate_small)
next
  case False
  then have a: "16 \<le> n" "n div 16 < 16" using assms by simp_all
  show ?thesis
    by (simp add: digits_of_step [OF _ a(1)] digits_of_small [OF a(2)] zero_pad_def a(2))
qed

lemma format_X_2:
  assumes "0 \<le> code" "code < 256"
  shows "format_X 2 code = hex_digits 2 code"
proof -
  have n: "nat code < 256" using assms by simp
  have u: "rev [0..<2] = [1, 0::nat]" by (simp add: upt_rec)
  show ?thesis
    using assms(1) hex2_nat [OF n]
    by (simp add: format_X_def hex_digits_def u nat_div_distrib nat_mod_distrib digit_char_hex)
qed

lemma digit_char_decimal: "d < 10 \<Longrightarrow> digit_char d = 48 + d"
proof -
  assume "d < 10"
  then have "d \<in> set [0..<10]" by simp
  moreover have "\<forall>k \<in> set [0..<10]. digit_char k = 48 + k"
    by (simp add: upt_rec digit_char_def lit_def)
  ultimately show ?thesis by blast
qed

lemma decimal_value_snoc: "decimal_value (s @ [c]) = 10 * decimal_value s + (c - 48)"
  by (simp add: decimal_value_def)

lemma decimal_value_digits: "decimal_value (digits_of 10 n) = n"
proof (induction n rule: less_induct)
  case (less n)
  show ?case
  proof (cases "n < 10")
    case True
    then show ?thesis
      by (simp add: digits_of_small decimal_value_def digit_char_decimal)
  next
    case False
    then have "n div 10 < n" by simp
    then have "decimal_value (digits_of 10 (n div 10)) = n div 10"
      by (rule less.IH)
    with False show ?thesis
      by (simp add: digits_of_step decimal_value_snoc digit_char_decimal)
  qed
qed

lemma is_decimal_digits: "is_decimal (digits_of 10 n)"
proof (induction n rule: less_induct)
  case (less n)
  show ?case
  proof (cases "n < 10")
    case True
    then show ?thesis
      by (simp add: digits_of_small is_decimal_def digit_char_decimal)
  next
    case False
    then have "n div 10 < n" by simp
    then have "is_decimal (digits_of 10 (n div 10))"
      by (rule less.IH)
    with False show ?thesis
      by (simp add: digits_of_step is_decimal_def digit_char_decimal)
  qed
qed

lemma special_chars_short: "map_of special_chars code = Some name \<Longrightarrow> length name \<le> 5"
  by (auto simp: special_chars_def split: if_splits)

lemma special_chars_none:
  "48 \<le> code \<and> code \<le> 57 \<or> 65 \<le> code \<and> code \<le> 90 \<or> 97 \<le> code \<and> code \<le> 122 \<or> 128 \<le> code
     \<Longrightarrow> map_of special_chars code = None"
  by (auto simp: special_chars_def)

lemma set_page_codes: "set (page_codes start_code end_code) = {start_code .. min end_code (start_code + 223)}"
  by (auto simp: page_codes_def py_range_def rows_def cols_def)

lemma page_codes_basic: "set (page_codes 32 255) = {32..255}"
  by (simp add: set_page_codes)

lemma page_codes_extended: "set (page_codes 256 511) = {256..479}"
  by (simp add: set_page_codes)

lemma length_hex_digits [simp]: "length (hex_digits k code) = k"
  by (simp add: hex_digits_def)

lemma key_label_value:
  assumes "0 \<le> code" "code < 65536"
  shows "key_label code =
     Inr (case map_of special_chars code of
            Some name \<Rightarrow> name
          | None \<Rightarrow> if code < 127 then [nat code] else lit ''U+'' @ hex_digits 4 code)"
  using assms by (simp add: key_label_def chr_def format_X_4 split: option.split)

lemma key_label_length:
  assumes "0 \<le> code" "code < 65536" "key_label code = Inr label"
  shows "length label \<le> 6"
  using assms special_chars_short [of code]
  by (auto simp: key_label_value split: option.splits if_splits)

lemma truncate_short: "length label \<le> 6 \<Longrightarrow> truncate_label label = label"
  by (simp add: truncate_label_def)

text \<open>
  Claim C10. A key label computed for a code point of the basic page, and a label of the
  extended page as the script calls it, has at most 6 characters, so the test of the
  truncation is false and the label is drawn unchanged.
\<close>

theorem labels_fit:
  "(code \<in> set (page_codes 32 255) \<longrightarrow>
      (\<exists>label. key_label code = Inr label \<and> length label \<le> 6 \<and> \<not> length label > 6
         \<and> truncate_label label = label))
   \<and> (ucode \<in> set (page_codes 256 511) \<longrightarrow> length (unicode_label ucode) \<le> 6)"
proof (intro conjI impI)
  assume "code \<in> set (page_codes 32 255)"
  then have r: "0 \<le> code" "code < 65536" by (simp_all add: page_codes_basic)
  obtain label where l: "key_label code = Inr label"
    using key_label_value [OF r] by blast
  have "length label \<le> 6" using r l by (rule key_label_length)
  then show "\<exists>label. key_label code = Inr label \<and> length label \<le> 6 \<and> \<not> length label > 6
         \<and> truncate_label label = label"
    using l by (auto simp: truncate_short)
next
  assume "ucode \<in> set (page_codes 256 511)"
  then have "0 \<le> ucode" "ucode < 65536" by (simp_all add: page_codes_extended)
  then show "length (unicode_label ucode) \<le> 6"
    by (simp add: unicode_label_def format_X_4)
qed

theorem labels_fit_witness:
  "32 \<in> set (page_codes 32 255) \<and> 479 \<in> set (page_codes 256 511)
   \<and> (\<exists>label. key_label 32 = Inr label \<and> length label \<le> 6 \<and> truncate_label label = label)
   \<and> length (unicode_label 479) \<le> 6"
  using labels_fit [of 32 479] by (auto simp: page_codes_basic page_codes_extended)

section \<open>Actions and the grids\<close>

lemma doesI:
  assumes "\<And>w. \<exists>evs. snd (m w) = w\<lparr>canvas := canvas w @ evs\<rparr> \<and> R (fst (m w)) evs"
  shows "does R m"
  using assms by (simp add: does_def)

lemma doesD:
  assumes "does R m"
  obtains evs where "snd (m w) = w\<lparr>canvas := canvas w @ evs\<rparr>" "R (fst (m w)) evs"
  using assms by (auto simp: does_def)

lemma does_mono:
  assumes "does R m" "\<And>r evs. R r evs \<Longrightarrow> R' r evs"
  shows "does R' m"
  using assms by (fastforce simp: does_def)

lemma and_then_run:
  "and_then m f w = (case fst (m w) of Inl e \<Rightarrow> (Inl e, snd (m w)) | Inr x \<Rightarrow> f x (snd (m w)))"
  by (simp add: and_then_def split: prod.split sum.split)

lemma catch_run:
  "catch m h w = (case fst (m w) of Inl e \<Rightarrow> h e (snd (m w)) | Inr x \<Rightarrow> (Inr x, snd (m w)))"
  by (simp add: catch_def split: prod.split sum.split)

lemma does_ok: "R (Inr x) [] \<Longrightarrow> does R (ok x)"
  by (auto simp: does_def ok_def intro: exI [of _ "[]"])

lemma does_lift: "R r [] \<Longrightarrow> does R (lift r)"
  by (auto simp: does_def lift_def intro: exI [of _ "[]"])

lemma does_call:
  assumes "R (Inr ()) [(op, True)]" "\<And>e. R (Inl e) [(op, False)]"
  shows "does R (call be op)"
  using assms by (auto simp: does_def call_def split: option.split)

lemma does_and_then:
  assumes m: "does R1 m"
    and f: "\<And>x. does (R2 x) (f x)"
    and l: "\<And>e a. R1 (Inl e) a \<Longrightarrow> R (Inl e) a"
    and r: "\<And>x a s b. R1 (Inr x) a \<Longrightarrow> R2 x s b \<Longrightarrow> R s (a @ b)"
  shows "does R (and_then m f)"
proof (rule doesI)
  fix w
  obtain a where a: "snd (m w) = w\<lparr>canvas := canvas w @ a\<rparr>" "R1 (fst (m w)) a"
    using m by (rule doesD)
  show "\<exists>evs. snd (and_then m f w) = w\<lparr>canvas := canvas w @ evs\<rparr> \<and> R (fst (and_then m f w)) evs"
  proof (cases "fst (m w)")
    case (Inl e)
    then have "and_then m f w = (Inl e, snd (m w))"
      by (simp add: and_then_run)
    then show ?thesis using a Inl l by auto
  next
    case (Inr x)
    then have e: "and_then m f w = f x (snd (m w))"
      by (simp add: and_then_run)
    obtain b where b: "snd (f x (snd (m w))) = (snd (m w))\<lparr>canvas := canvas (snd (m w)) @ b\<rparr>"
      "R2 x (fst (f x (snd (m w)))) b"
      using f by (rule doesD)
    have "R (fst (and_then m f w)) (a @ b)"
      using a(2) b(2) Inr e r by simp
    moreover have "snd (and_then m f w) = w\<lparr>canvas := canvas w @ (a @ b)\<rparr>"
      using a(1) b(1) e by simp
    ultimately show ?thesis by blast
  qed
qed

lemma does_catch:
  assumes m: "does R1 m"
    and h: "\<And>e. does (R2 e) (h e)"
    and r: "\<And>x a. R1 (Inr x) a \<Longrightarrow> R (Inr x) a"
    and l: "\<And>e a s b. R1 (Inl e) a \<Longrightarrow> R2 e s b \<Longrightarrow> R s (a @ b)"
  shows "does R (catch m h)"
proof (rule doesI)
  fix w
  obtain a where a: "snd (m w) = w\<lparr>canvas := canvas w @ a\<rparr>" "R1 (fst (m w)) a"
    using m by (rule doesD)
  show "\<exists>evs. snd (catch m h w) = w\<lparr>canvas := canvas w @ evs\<rparr> \<and> R (fst (catch m h w)) evs"
  proof (cases "fst (m w)")
    case (Inr x)
    then have "catch m h w = (Inr x, snd (m w))"
      by (simp add: catch_run)
    then show ?thesis using a Inr r by auto
  next
    case (Inl e)
    then have e: "catch m h w = h e (snd (m w))"
      by (simp add: catch_run)
    obtain b where b: "snd (h e (snd (m w))) = (snd (m w))\<lparr>canvas := canvas (snd (m w)) @ b\<rparr>"
      "R2 e (fst (h e (snd (m w)))) b"
      using h by (rule doesD)
    have "R (fst (catch m h w)) (a @ b)"
      using a(2) b(2) Inl e l by simp
    moreover have "snd (catch m h w) = w\<lparr>canvas := canvas w @ (a @ b)\<rparr>"
      using a(1) b(1) e by simp
    ultimately show ?thesis by blast
  qed
qed

lemma emits_ok: "emits Q (ok x)"
  by (simp add: emits_def does_ok)

lemma emits_lift: "emits Q (lift r)"
  by (simp add: emits_def does_lift)

lemma emits_call: "Q op \<Longrightarrow> emits Q (call be op)"
  by (simp add: emits_def does_call)

lemma emits_and_then: "emits Q m \<Longrightarrow> (\<And>x. emits Q (f x)) \<Longrightarrow> emits Q (and_then m f)"
  unfolding emits_def by (erule does_and_then) auto

lemma emits_catch: "emits Q m \<Longrightarrow> (\<And>e. emits Q (h e)) \<Longrightarrow> emits Q (catch m h)"
  unfolding emits_def by (erule does_catch) auto

lemma emits_calls: "list_all Q ops \<Longrightarrow> emits Q (calls be ops)"
  by (induction ops) (auto intro: emits_ok emits_and_then emits_call)

lemma emits_for_loop:
  assumes "\<And>code a. code \<in> set codes \<Longrightarrow> emits Q (body code a)"
  shows "emits Q (for_loop body codes a)"
  using assms
proof (induction codes arbitrary: a)
  case Nil
  show ?case by (simp add: emits_ok)
next
  case (Cons code codes)
  show ?case
    by (auto intro!: emits_and_then emits_ok Cons split: step.split)
qed

lemma emits_mono: "emits Q m \<Longrightarrow> (\<And>op. Q op \<Longrightarrow> Q' op) \<Longrightarrow> emits Q' m"
  unfolding emits_def by (erule does_mono) (auto simp: list_all_iff)

lemma emits_draw_glyph:
  assumes "\<And>f s. Q (SetFont f s)" "\<And>r g b. Q (SetFillColorRGB r g b)" "\<And>x y s. Q (DrawCentredString x y s)"
  shows "emits Q (draw_glyph be L font_id x y code n)"
  unfolding draw_glyph_def
  by (intro emits_catch emits_and_then emits_calls emits_call emits_lift emits_ok) (simp_all add: assms)

lemma does_calls: "does (calls_events ops) (calls be ops)"
proof (induction ops)
  case Nil
  show ?case by (simp add: does_ok calls_events_def)
next
  case (Cons op ops)
  show ?case
    unfolding calls.simps
  proof (rule does_and_then [where ?R1.0 = "calls_events [op]" and ?R2.0 = "\<lambda>_. calls_events ops"])
    show "does (calls_events [op]) (call be op)"
      by (rule does_call) (auto simp: calls_events_def Cons_eq_append_conv)
    show "does (calls_events ops) (calls be ops)" by (rule Cons)
  next
    fix e a
    assume "calls_events [op] (Inl e) a"
    then show "calls_events (op # ops) (Inl e) a"
      by (auto simp: calls_events_def Cons_eq_append_conv)
  next
    fix x a s b
    assume a: "calls_events [op] (Inr x) a" and b: "calls_events ops s b"
    from a have a': "a = [(op, True)]"
      by (auto simp: calls_events_def)
    from b consider "s = Inr ()" "b = map (\<lambda>op. (op, True)) ops"
      | e pre op' post where "s = Inl e" "ops = pre @ op' # post"
          "b = map (\<lambda>op. (op, True)) pre @ [(op', False)]"
      by (auto simp: calls_events_def)
    then show "calls_events (op # ops) s (a @ b)"
    proof cases
      case 1
      then show ?thesis by (simp add: calls_events_def a')
    next
      case 2
      then have "op # ops = (op # pre) @ op' # post"
        "a @ b = map (\<lambda>op. (op, True)) (op # pre) @ [(op', False)]"
        by (simp_all add: a')
      then show ?thesis
        unfolding calls_events_def using 2(1) by blast
    qed
  qed
qed

lemma does_result:
  assumes "does R m" "\<And>w. P (fst (m w))"
  shows "does (\<lambda>r evs. R r evs \<and> P r) m"
  using assms by (fastforce simp: does_def)

lemma rect_calls_append [simp]: "rect_calls (a @ b) = rect_calls a @ rect_calls b"
  by (simp add: rect_calls_def)

lemma rect_calls_Nil [simp]: "rect_calls [] = []"
  by (simp add: rect_calls_def)

lemma rect_calls_Cons [simp]:
  "rect_calls (ev # evs) = (if is_rect (fst ev) then fst ev # rect_calls evs else rect_calls evs)"
  by (simp add: rect_calls_def)

lemma emits_no_rect:
  assumes "emits (\<lambda>op. \<not> is_rect op) m"
  shows "does (\<lambda>r evs. rect_calls evs = []) m"
  using assms unfolding emits_def
  by (rule does_mono) (simp add: rect_calls_def list_all_iff filter_empty_conv)

lemma cell_rect_eq:
  "Rect (x_start L + real_of_int ((code - start_code) mod cols) * cell_size L)
        (y_start L - real_of_int ((code - start_code) div cols) * cell_size L - cell_size L)
        (cell_size L) (cell_size L) = cell_rect L start_code code"
  by (simp add: cell_rect_def Let_def x_start_def y_start_def margin_def cell_size_def cols_def)

lemma border_then_rest:
  assumes "emits (\<lambda>op. \<not> is_rect op) rest"
  shows "does (cell_rel (Rect x y w h))
           (and_then (calls be [SetStrokeColorRGB r g b, Rect x y w h]) (\<lambda>_. rest))"
proof (rule does_and_then [where ?R1.0 = "calls_events [SetStrokeColorRGB r g b, Rect x y w h]"
      and ?R2.0 = "\<lambda>_ r evs. rect_calls evs = []"])
  show "does (calls_events [SetStrokeColorRGB r g b, Rect x y w h])
          (calls be [SetStrokeColorRGB r g b, Rect x y w h])"
    by (rule does_calls)
  show "does (\<lambda>r evs. rect_calls evs = []) rest"
    using assms by (rule emits_no_rect)
next
  fix e a
  assume "calls_events [SetStrokeColorRGB r g b, Rect x y w h] (Inl e) a"
  then show "cell_rel (Rect x y w h) (Inl e) a"
    by (auto simp: calls_events_def cell_rel_def Cons_eq_append_conv)
next
  fix u a s c
  assume "calls_events [SetStrokeColorRGB r g b, Rect x y w h] (Inr u) a" "rect_calls c = []"
  then show "cell_rel (Rect x y w h) s (a @ c)"
    by (auto simp: calls_events_def cell_rel_def)
qed

lemma character_cell_rect:
  assumes "code - start_code < 224"
  shows "does (cell_rel (cell_rect L start_code code))
           (character_cell be L font_id start_code code n)"
proof -
  have r: "\<not> rows \<le> (code - start_code) div cols"
    using assms by (simp add: rows_def cols_def)
  show ?thesis
    unfolding character_cell_def Let_def
    apply (simp only: r if_False)
    apply (fold cell_rect_eq [of L code start_code])
    apply (rule border_then_rest)
    apply (intro emits_and_then emits_calls emits_call emits_lift emits_ok emits_draw_glyph)
    apply simp_all
    done
qed

lemma extended_cell_rect:
  assumes "code - start_code < 224"
  shows "does (cell_rel (cell_rect L start_code code))
           (extended_cell be L font_id start_code code n)"
proof -
  have r: "\<not> rows \<le> (code - start_code) div cols"
    using assms by (simp add: rows_def cols_def)
  have c: "calls be (a # b # ops) = and_then (calls be [a, b]) (\<lambda>_. calls be ops)" for a b ops
    by (rule ext) (simp add: and_then_run ok_def split: sum.split)
  have a: "and_then (and_then m (\<lambda>_. k)) f = and_then m (\<lambda>_. and_then k f)" for m :: "unit act" and k :: "unit act" and f :: "unit \<Rightarrow> nat step act"
    by (rule ext) (simp add: and_then_run split: sum.split)
  show ?thesis
    unfolding extended_cell_def Let_def
    apply (simp only: r if_False)
    apply (fold cell_rect_eq [of L code start_code])
    apply (subst c)
    apply (subst a)
    apply (rule border_then_rest)
    apply (intro emits_and_then emits_calls emits_call emits_lift emits_ok emits_draw_glyph)
    apply simp_all
    done
qed

lemma character_cell_no_break:
  assumes "code - start_code < 224"
  shows "fst (character_cell be L font_id start_code code n w) \<noteq> Inr Break"
proof -
  have r: "\<not> rows \<le> (code - start_code) div cols"
    using assms by (simp add: rows_def cols_def)
  show ?thesis
    unfolding character_cell_def Let_def
    by (simp only: r if_False) (simp add: and_then_run ok_def split: sum.split)
qed

lemma extended_cell_no_break:
  assumes "code - start_code < 224"
  shows "fst (extended_cell be L font_id start_code code n w) \<noteq> Inr Break"
proof -
  have r: "\<not> rows \<le> (code - start_code) div cols"
    using assms by (simp add: rows_def cols_def)
  show ?thesis
    unfolding extended_cell_def Let_def
    by (simp only: r if_False) (simp add: and_then_run ok_def split: sum.split)
qed

lemma for_loop_rects:
  assumes "\<And>code a. code \<in> set codes \<Longrightarrow> does (cell_rel (f code)) (body code a)"
    and "\<And>code a w. code \<in> set codes \<Longrightarrow> fst (body code a w) \<noteq> Inr Break"
  shows "does (loop_rel f codes) (for_loop body codes a)"
  using assms
proof (induction codes arbitrary: a)
  case Nil
  show ?case by (simp add: does_ok loop_rel_def)
next
  case (Cons code codes)
  have ih: "does (loop_rel f codes) (for_loop body codes a')" for a'
    by (rule Cons.IH) (simp_all add: Cons.prems)
  have cell: "does (\<lambda>r evs. cell_rel (f code) r evs \<and> r \<noteq> Inr Break) (body code a)"
    by (rule does_result) (simp_all add: Cons.prems)
  show ?case
    unfolding for_loop.simps
  proof (rule does_and_then [where ?R1.0 = "\<lambda>r evs. cell_rel (f code) r evs \<and> r \<noteq> Inr Break"
        and ?R2.0 = "\<lambda>x r evs. x \<noteq> Break \<longrightarrow> loop_rel f codes r evs"])
    show "does (\<lambda>r evs. cell_rel (f code) r evs \<and> r \<noteq> Inr Break) (body code a)"
      by (rule cell)
    show "does (\<lambda>r evs. x \<noteq> Break \<longrightarrow> loop_rel f codes r evs)
            (case x of Break \<Rightarrow> ok a | Next a' \<Rightarrow> for_loop body codes a')" for x
      by (cases x) (simp_all add: does_ok ih)
  next
    fix e b
    assume "cell_rel (f code) (Inl e) b \<and> Inl e \<noteq> (Inr Break :: error + 'a step)"
    then have "rect_calls b = map f (take 0 (code # codes)) \<or> rect_calls b = map f (take 1 (code # codes))"
      by (auto simp: cell_rel_def)
    then show "loop_rel f (code # codes) (Inl e) b"
      unfolding loop_rel_def by (metis One_nat_def Suc_leI le0 length_Cons zero_less_Suc sum.distinct(1))
  next
    fix x b s c
    assume 1: "cell_rel (f code) (Inr x) b \<and> Inr x \<noteq> (Inr Break :: error + 'a step)"
      and 2: "x \<noteq> Break \<longrightarrow> loop_rel f codes s c"
    from 1 have b: "rect_calls b = [f code]" and "x \<noteq> Break"
      by (auto simp: cell_rel_def)
    with 2 obtain k where k: "k \<le> length codes" "rect_calls c = map f (take k codes)"
      "(\<exists>n. s = Inr n) \<longrightarrow> k = length codes"
      by (auto simp: loop_rel_def)
    have "Suc k \<le> length (code # codes)" "rect_calls (b @ c) = map f (take (Suc k) (code # codes))"
      "(\<exists>n. s = Inr n) \<longrightarrow> Suc k = length (code # codes)"
      using k b by simp_all
    then show "loop_rel f (code # codes) s (b @ c)"
      unfolding loop_rel_def by blast
  qed
qed

lemma page_codes_in_range: "code \<in> set (page_codes start_code end_code) \<Longrightarrow> code - start_code < 224"
  by (auto simp: page_codes_def py_range_def rows_def cols_def)

lemma length_page_codes:
  "length (page_codes start_code end_code) = nat (min (end_code + 1 - start_code) 224)"
  by (auto simp: page_codes_def py_range_def rows_def cols_def min_def)

lemma drawn_does:
  assumes "does R m"
  shows "R (fst (m w)) (drawn m w)"
proof -
  obtain evs where "snd (m w) = w\<lparr>canvas := canvas w @ evs\<rparr>" "R (fst (m w)) evs"
    using assms by (rule doesD)
  then show ?thesis by (simp add: drawn_def)
qed

lemma character_grid_rects:
  "loop_rel (cell_rect L start_code) (page_codes start_code end_code)
     (fst (draw_character_grid be L font_id font_name start_code end_code w))
     (drawn (draw_character_grid be L font_id font_name start_code end_code) w)"
  unfolding draw_character_grid_def
  by (intro drawn_does for_loop_rects character_cell_rect character_cell_no_break page_codes_in_range)

lemma extended_grid_rects:
  "loop_rel (cell_rect L start_code) (page_codes start_code end_code)
     (fst (draw_extended_grid be L font_id font_name start_code end_code w))
     (drawn (draw_extended_grid be L font_id font_name start_code end_code) w)"
  unfolding draw_extended_grid_def
  by (intro drawn_does for_loop_rects extended_cell_rect extended_cell_no_break page_codes_in_range)

lemma centred_texts_quiet:
  "list_all quiet a \<Longrightarrow> centred_texts p (a @ b) = centred_texts (foldl move_pen p a) b"
  by (induction a arbitrary: p) (auto simp: quiet_def split: draw_op.split)

lemma centred_texts_quiet_Nil: "list_all quiet a \<Longrightarrow> centred_texts p a = []"
  using centred_texts_quiet [of a p "[]"] by simp

lemma centred_texts_append:
  "centred_texts p (a @ b) = centred_texts p a @ centred_texts (foldl move_pen p a) b"
  by (induction a arbitrary: p) auto

lemma account_Nil: "account font_id n n []"
  by (simp add: account_def glyphs_drawn_def placeholders_drawn_def)

lemma account_append:
  "account font_id n0 n1 a \<Longrightarrow> account font_id n1 n2 b \<Longrightarrow> account font_id n0 n2 (a @ b)"
proof -
  assume a: "account font_id n0 n1 a" and b: "account font_id n1 n2 b"
  show ?thesis
    unfolding account_def
  proof
    fix p
    show "n2 = n0 + glyphs_drawn font_id p (a @ b) \<and>
          length (rect_calls (a @ b)) = glyphs_drawn font_id p (a @ b) + placeholders_drawn p (a @ b)"
      using a [unfolded account_def, rule_format, of p]
        b [unfolded account_def, rule_format, of "foldl move_pen p a"]
      by (simp add: glyphs_drawn_def placeholders_drawn_def centred_texts_append)
  qed
qed

lemma try_glyph_events:
  fixes n :: nat
  shows "does (\<lambda>r evs. (\<forall>n'. r = Inr n' \<longrightarrow> n' = n + 1 \<and>
                    (\<exists>px py char. evs = [(SetFont font_id 20, True), (SetFillColorRGB 0 0 0, True),
                       (DrawCentredString px py char, True)]))
               \<and> ((\<exists>e. r = Inl e) \<longrightarrow> list_all quiet evs))
     (and_then (calls be [SetFont font_id font_size_char, SetFillColorRGB 0 0 0]) (\<lambda>_.
        and_then (lift (chr code)) (\<lambda>char.
        and_then (call be (DrawCentredString x y char)) (\<lambda>_.
        ok (n + 1)))))"
  (is "does ?R _")
proof (rule does_and_then [where ?R1.0 = "calls_events [SetFont font_id font_size_char, SetFillColorRGB 0 0 0]"
      and ?R2.0 = "\<lambda>_ r evs. (\<forall>n'. r = Inr n' \<longrightarrow> n' = n + 1 \<and>
                    (\<exists>px py char. evs = [(DrawCentredString px py char, True)]))
               \<and> ((\<exists>e. r = Inl e) \<longrightarrow> list_all quiet evs)"])
  show "does (calls_events [SetFont font_id font_size_char, SetFillColorRGB 0 0 0])
          (calls be [SetFont font_id font_size_char, SetFillColorRGB 0 0 0])"
    by (rule does_calls)
next
  fix u :: unit
  show "does (\<lambda>r evs. (\<forall>n'. r = Inr n' \<longrightarrow> n' = n + 1 \<and>
                    (\<exists>px py char. evs = [(DrawCentredString px py char, True)]))
               \<and> ((\<exists>e. r = Inl e) \<longrightarrow> list_all quiet evs))
          (and_then (lift (chr code)) (\<lambda>char.
             and_then (call be (DrawCentredString x y char)) (\<lambda>_. ok (n + 1))))"
  proof (rule does_and_then [where ?R1.0 = "\<lambda>r evs. evs = []"
        and ?R2.0 = "\<lambda>_ r evs. (\<forall>n'. r = Inr n' \<longrightarrow> n' = n + 1 \<and>
                    (\<exists>px py char. evs = [(DrawCentredString px py char, True)]))
               \<and> ((\<exists>e. r = Inl e) \<longrightarrow> list_all quiet evs)"])
    show "does (\<lambda>r evs. evs = []) (lift (chr code))"
      by (simp add: does_lift)
  next
    fix char
    show "does (\<lambda>r evs. (\<forall>n'. r = Inr n' \<longrightarrow> n' = n + 1 \<and>
                    (\<exists>px py char. evs = [(DrawCentredString px py char, True)]))
               \<and> ((\<exists>e. r = Inl e) \<longrightarrow> list_all quiet evs))
            (and_then (call be (DrawCentredString x y char)) (\<lambda>_. ok (n + 1)))"
    proof (rule does_and_then [where ?R1.0 = "calls_events [DrawCentredString x y char]"
          and ?R2.0 = "\<lambda>_ r evs. r = Inr (n + 1) \<and> evs = []"])
      show "does (calls_events [DrawCentredString x y char]) (call be (DrawCentredString x y char))"
        by (rule does_call) (auto simp: calls_events_def Cons_eq_append_conv)
    qed (auto simp: does_ok calls_events_def Cons_eq_append_conv quiet_def)
  qed auto
next
  fix e a
  assume "calls_events [SetFont font_id font_size_char, SetFillColorRGB 0 0 0] (Inl e) a"
  then show "?R (Inl e) a"
    by (auto simp: calls_events_def Cons_eq_append_conv quiet_def)
next
  fix u :: unit and a and s :: "error + nat" and b
  assume "calls_events [SetFont font_id font_size_char, SetFillColorRGB 0 0 0] (Inr u) a"
    and "(\<forall>n'. s = Inr n' \<longrightarrow> n' = n + 1 \<and>
                    (\<exists>px py char. b = [(DrawCentredString px py char, True)]))
               \<and> ((\<exists>e. s = Inl e) \<longrightarrow> list_all quiet b)"
  then show "?R s (a @ b)"
    by (auto simp: calls_events_def quiet_def font_size_char_def)
qed

lemma gcount_quiet_prefix: "list_all quiet a \<Longrightarrow> gcount font_id n n' b \<Longrightarrow> gcount font_id n n' (a @ b)"
  by (simp add: gcount_def glyphs_drawn_def placeholders_drawn_def centred_texts_quiet)

lemma gcount_quiet_suffix: "gcount font_id n n' a \<Longrightarrow> list_all quiet b \<Longrightarrow> gcount font_id n n' (a @ b)"
  by (simp add: gcount_def glyphs_drawn_def placeholders_drawn_def centred_texts_append
      centred_texts_quiet_Nil)

lemma gcount_glyph:
  "gcount font_id n (n + 1)
     [(SetFont font_id 20, True), (SetFillColorRGB 0 0 0, True), (DrawCentredString px py char, True)]"
  by (simp add: gcount_def glyphs_drawn_def placeholders_drawn_def move_pen_def is_glyph_def
      is_placeholder_def)

lemma gcount_placeholder:
  "gcount font_id n n
     [(SetFont (lit ''Helvetica'') 8, True), (SetFillColorRGB 0.8 0.8 0.8, True),
      (DrawCentredString px py dash, True)]"
  by (simp add: gcount_def glyphs_drawn_def placeholders_drawn_def move_pen_def is_glyph_def
      is_placeholder_def dash_def)

lemma handler_events:
  "does (\<lambda>r evs. \<forall>n'. r = Inr n' \<longrightarrow> n' = n \<and> evs = map (\<lambda>op. (op, True)) ops)
     (and_then (calls be ops) (\<lambda>_. ok n))"
proof (rule does_and_then [where ?R1.0 = "calls_events ops"
      and ?R2.0 = "\<lambda>_ r evs. r = Inr n \<and> evs = []"])
  show "does (calls_events ops) (calls be ops)"
    by (rule does_calls)
qed (auto simp: does_ok calls_events_def)

lemma draw_glyph_count:
  "does (\<lambda>r evs. \<forall>n'. r = Inr n' \<longrightarrow> gcount font_id n n' evs)
     (draw_glyph be L font_id x y code n)"
  unfolding draw_glyph_def
proof (rule does_catch [OF try_glyph_events handler_events])
  fix n' a
  assume "(\<forall>k. Inr n' = (Inr k :: error + nat) \<longrightarrow> k = n + 1 \<and>
             (\<exists>px py char. a = [(SetFont font_id 20, True), (SetFillColorRGB 0 0 0, True),
                (DrawCentredString px py char, True)]))
          \<and> ((\<exists>e. (Inr n' :: error + nat) = Inl e) \<longrightarrow> list_all quiet a)"
  then show "\<forall>k. (Inr n' :: error + nat) = Inr k \<longrightarrow> gcount font_id n k a"
    using gcount_glyph [of font_id n] by auto
next
  fix e a and s :: "error + nat" and b
  assume 1: "(\<forall>k. Inl e = (Inr k :: error + nat) \<longrightarrow> k = n + 1 \<and>
             (\<exists>px py char. a = [(SetFont font_id 20, True), (SetFillColorRGB 0 0 0, True),
                (DrawCentredString px py char, True)]))
          \<and> ((\<exists>e'. (Inl e :: error + nat) = Inl e') \<longrightarrow> list_all quiet a)"
    and 2: "\<forall>n'. s = Inr n' \<longrightarrow> n' = n \<and>
          b = map (\<lambda>op. (op, True)) [SetFont (lit ''Helvetica'') 8, SetFillColorRGB 0.8 0.8 0.8,
                DrawCentredString (x + cell_size L / 2) (y - cell_size L + 0.15 * inch L) dash]"
  from 1 have q: "list_all quiet a" by simp
  show "\<forall>k. s = Inr k \<longrightarrow> gcount font_id n k (a @ b)"
  proof (intro allI impI)
    fix k
    assume "s = Inr k"
    with 2 have k: "k = n" and b: "b = [(SetFont (lit ''Helvetica'') 8, True),
        (SetFillColorRGB 0.8 0.8 0.8, True),
        (DrawCentredString (x + cell_size L / 2) (y - cell_size L + 0.15 * inch L) dash, True)]"
      by simp_all
    show "gcount font_id n k (a @ b)"
      unfolding k b by (rule gcount_quiet_prefix [OF q gcount_placeholder])
  qed
qed

lemma does_conj:
  assumes "does R m" "does R' m"
  shows "does (\<lambda>r evs. R r evs \<and> R' r evs) m"
proof (rule doesI)
  fix w
  obtain a where a: "snd (m w) = w\<lparr>canvas := canvas w @ a\<rparr>" "R (fst (m w)) a"
    using assms(1) by (rule doesD)
  obtain b where b: "snd (m w) = w\<lparr>canvas := canvas w @ b\<rparr>" "R' (fst (m w)) b"
    using assms(2) by (rule doesD)
  have "canvas (w\<lparr>canvas := canvas w @ a\<rparr>) = canvas (w\<lparr>canvas := canvas w @ b\<rparr>)"
    using a(1) b(1) by simp
  then have "a = b" by simp
  with a b show "\<exists>evs. snd (m w) = w\<lparr>canvas := canvas w @ evs\<rparr> \<and> R (fst (m w)) evs \<and> R' (fst (m w)) evs"
    by blast
qed

lemma quiet_ops: "list_all (\<lambda>ev. \<not> is_centred (fst ev)) evs \<Longrightarrow> list_all quiet evs"
  by (auto simp: list_all_iff quiet_def)

lemma ccount_after_quiet:
  assumes "emits (\<lambda>op. \<not> is_centred op) m" "\<And>x. does (ccount font_id n) (f x)"
  shows "does (ccount font_id n) (and_then m f)"
proof (rule does_and_then [where ?R1.0 = "\<lambda>r evs. list_all (\<lambda>ev. \<not> is_centred (fst ev)) evs"
      and ?R2.0 = "\<lambda>_. ccount font_id n"])
  show "does (\<lambda>r. list_all (\<lambda>ev. \<not> is_centred (fst ev))) m"
    using assms(1) by (simp add: emits_def)
  show "does (ccount font_id n) (f x)" for x
    by (rule assms(2))
next
  fix e a
  show "ccount font_id n (Inl e) a" by (simp add: ccount_def)
next
  fix a :: "event list" and s b
  assume "list_all (\<lambda>ev. \<not> is_centred (fst ev)) a" "ccount font_id n s b"
  then show "ccount font_id n s (a @ b)"
    by (auto simp: ccount_def intro: gcount_quiet_prefix quiet_ops)
qed

lemma glyph_then_reset:
  "does (ccount font_id n)
     (and_then (draw_glyph be L font_id x y code n) (\<lambda>m.
        and_then (call be (SetFillColorRGB 0 0 0)) (\<lambda>_. ok (Next m))))"
proof (rule does_and_then [where ?R1.0 = "\<lambda>r evs. \<forall>n'. r = Inr n' \<longrightarrow> gcount font_id n n' evs"
      and ?R2.0 = "\<lambda>m r evs. (\<forall>n'. r = Inr (Next n') \<longrightarrow> n' = m) \<and> list_all quiet evs"])
  show "does (\<lambda>r evs. \<forall>n'. r = Inr n' \<longrightarrow> gcount font_id n n' evs)
          (draw_glyph be L font_id x y code n)"
    by (rule draw_glyph_count)
next
  fix m :: nat
  show "does (\<lambda>r evs. (\<forall>n'. r = Inr (Next n') \<longrightarrow> n' = m) \<and> list_all quiet evs)
          (and_then (call be (SetFillColorRGB 0 0 0)) (\<lambda>_. ok (Next m)))"
  proof (rule does_and_then [where ?R1.0 = "calls_events [SetFillColorRGB 0 0 0]"
        and ?R2.0 = "\<lambda>_ r evs. r = Inr (Next m) \<and> evs = []"])
    show "does (calls_events [SetFillColorRGB 0 0 0]) (call be (SetFillColorRGB 0 0 0))"
      by (rule does_call) (auto simp: calls_events_def Cons_eq_append_conv)
  qed (auto simp: does_ok calls_events_def Cons_eq_append_conv quiet_def)
next
  fix e a
  show "ccount font_id n (Inl e) a" by (simp add: ccount_def)
next
  fix m a and s :: "error + nat step" and b
  assume "\<forall>n'. (Inr m :: error + nat) = Inr n' \<longrightarrow> gcount font_id n n' a"
    and "(\<forall>n'. s = Inr (Next n') \<longrightarrow> n' = m) \<and> list_all quiet b"
  then show "ccount font_id n s (a @ b)"
    by (auto simp: ccount_def intro: gcount_quiet_suffix)
qed

lemma character_cell_count:
  assumes "code - start_code < 224"
  shows "does (ccount font_id n) (character_cell be L font_id start_code code n)"
proof -
  have r: "\<not> rows \<le> (code - start_code) div cols"
    using assms by (simp add: rows_def cols_def)
  show ?thesis
    unfolding character_cell_def Let_def
    apply (simp only: r if_False)
    apply (rule ccount_after_quiet)
     apply (rule emits_calls, simp)
    apply (rule ccount_after_quiet)
     apply (rule emits_lift)
    apply (rule ccount_after_quiet)
     apply (rule emits_calls, simp)
    apply (rule glyph_then_reset)
    done
qed

lemma extended_cell_count:
  assumes "code - start_code < 224"
  shows "does (ccount font_id n) (extended_cell be L font_id start_code code n)"
proof -
  have r: "\<not> rows \<le> (code - start_code) div cols"
    using assms by (simp add: rows_def cols_def)
  show ?thesis
    unfolding extended_cell_def Let_def
    apply (simp only: r if_False)
    apply (rule ccount_after_quiet)
     apply (rule emits_calls, simp)
    apply (rule glyph_then_reset)
    done
qed

lemma cell_account_from:
  assumes "does (cell_rel rect) m" "does (ccount font_id n) m" "\<And>w. fst (m w) \<noteq> Inr Break"
  shows "does (cell_account font_id n) m"
proof -
  have "does (\<lambda>r evs. (cell_rel rect r evs \<and> ccount font_id n r evs) \<and> r \<noteq> Inr Break) m"
    by (intro does_result does_conj assms)
  then show ?thesis
  proof (rule does_mono)
    fix r evs
    assume "(cell_rel rect r evs \<and> ccount font_id n r evs) \<and> r \<noteq> Inr Break"
    then show "cell_account font_id n r evs"
      by (auto simp: cell_account_def cell_rel_def ccount_def gcount_def account_def)
  qed
qed

lemma for_loop_account:
  assumes "\<And>code a. code \<in> set codes \<Longrightarrow> does (cell_account font_id a) (body code a)"
  shows "does (\<lambda>r evs. \<forall>n. r = Inr n \<longrightarrow> account font_id a n evs) (for_loop body codes a)"
  using assms
proof (induction codes arbitrary: a)
  case Nil
  show ?case by (simp add: does_ok account_Nil)
next
  case (Cons code codes)
  have ih: "does (\<lambda>r evs. \<forall>n. r = Inr n \<longrightarrow> account font_id a' n evs) (for_loop body codes a')" for a'
    by (rule Cons.IH) (simp add: Cons.prems)
  show ?case
    unfolding for_loop.simps
  proof (rule does_and_then [where ?R1.0 = "cell_account font_id a"
        and ?R2.0 = "\<lambda>x r evs. \<forall>a'. x = Next a' \<longrightarrow> (\<forall>n. r = Inr n \<longrightarrow> account font_id a' n evs)"])
    show "does (cell_account font_id a) (body code a)"
      by (rule Cons.prems) simp
    show "does (\<lambda>r evs. \<forall>a'. x = Next a' \<longrightarrow> (\<forall>n. r = Inr n \<longrightarrow> account font_id a' n evs))
            (case x of Break \<Rightarrow> ok a | Next a' \<Rightarrow> for_loop body codes a')" for x
      by (cases x) (simp_all add: does_ok ih)
  next
    fix e b
    show "\<forall>n. (Inl e :: error + nat) = Inr n \<longrightarrow> account font_id a n b" by simp
  next
    fix x b and s :: "error + nat" and c
    assume 1: "cell_account font_id a (Inr x) b"
      and 2: "\<forall>a'. x = Next a' \<longrightarrow> (\<forall>n. s = Inr n \<longrightarrow> account font_id a' n c)"
    from 1 obtain a' where x: "x = Next a'" and b: "account font_id a a' b"
      by (cases x) (auto simp: cell_account_def)
    show "\<forall>n. s = Inr n \<longrightarrow> account font_id a n (b @ c)"
      using 2 x b by (auto intro: account_append)
  qed
qed

lemma character_grid_account:
  "\<forall>n. fst (draw_character_grid be L font_id font_name start_code end_code w) = Inr n \<longrightarrow>
     account font_id 0 n (drawn (draw_character_grid be L font_id font_name start_code end_code) w)"
proof -
  have "does (cell_account font_id a) (character_cell be L font_id start_code code a)"
    if "code \<in> set (page_codes start_code end_code)" for code a
    using that
    by (intro cell_account_from [where rect = "cell_rect L start_code code"] character_cell_rect
        character_cell_count character_cell_no_break page_codes_in_range)
  then have "does (\<lambda>r evs. \<forall>n. r = Inr n \<longrightarrow> account font_id 0 n evs)
      (draw_character_grid be L font_id font_name start_code end_code)"
    unfolding draw_character_grid_def by (rule for_loop_account)
  then show ?thesis by (rule drawn_does)
qed

lemma extended_grid_account:
  "\<forall>n. fst (draw_extended_grid be L font_id font_name start_code end_code w) = Inr n \<longrightarrow>
     account font_id 0 n (drawn (draw_extended_grid be L font_id font_name start_code end_code) w)"
proof -
  have "does (cell_account font_id a) (extended_cell be L font_id start_code code a)"
    if "code \<in> set (page_codes start_code end_code)" for code a
    using that
    by (intro cell_account_from [where rect = "cell_rect L start_code code"] extended_cell_rect
        extended_cell_count extended_cell_no_break page_codes_in_range)
  then have "does (\<lambda>r evs. \<forall>n. r = Inr n \<longrightarrow> account font_id 0 n evs)
      (draw_extended_grid be L font_id font_name start_code end_code)"
    unfolding draw_extended_grid_def by (rule for_loop_account)
  then show ?thesis by (rule drawn_does)
qed

lemma succeeds_ok: "succeeds (ok x)"
  by (simp add: succeeds_def ok_def)

lemma succeeds_lift: "succeeds (lift (Inr x))"
  by (simp add: succeeds_def lift_def)

lemma succeeds_and_then: "succeeds m \<Longrightarrow> (\<And>x. succeeds (f x)) \<Longrightarrow> succeeds (and_then m f)"
  unfolding succeeds_def and_then_run
  by (metis (mono_tags, lifting) sum.simps(6))

lemma succeeds_catch: "(\<And>e. succeeds (h e)) \<Longrightarrow> succeeds (catch m h)"
  unfolding succeeds_def catch_run
  by (metis (mono_tags, lifting) fst_conv sum.case_eq_if sum.collapse(2) sum.disc(2) sum.simps(5) sum.split_sel_asm)

lemma sure_returns: "glyph_faults_only be \<Longrightarrow> sure op \<Longrightarrow> raises be h op = None"
  unfolding glyph_faults_only_def sure_def by (cases "raises be h op") blast+

lemma succeeds_call: "glyph_faults_only be \<Longrightarrow> sure op \<Longrightarrow> succeeds (call be op)"
  by (simp add: succeeds_def call_def sure_returns)

lemma succeeds_calls: "glyph_faults_only be \<Longrightarrow> list_all sure ops \<Longrightarrow> succeeds (calls be ops)"
  by (induction ops) (auto intro: succeeds_ok succeeds_and_then succeeds_call)

lemma succeeds_for_loop:
  assumes "\<And>code a. code \<in> set codes \<Longrightarrow> succeeds (body code a)"
  shows "succeeds (for_loop body codes a)"
  using assms
proof (induction codes arbitrary: a)
  case Nil
  show ?case by (simp add: succeeds_ok)
next
  case (Cons code codes)
  show ?case
    by (auto intro!: succeeds_and_then succeeds_ok Cons split: step.split)
qed

lemma succeeds_draw_glyph: "glyph_faults_only be \<Longrightarrow> succeeds (draw_glyph be L font_id x y code n)"
  unfolding draw_glyph_def
  by (intro succeeds_catch succeeds_and_then succeeds_calls succeeds_ok)
    (simp_all add: sure_def dash_def)

lemma key_label_ok: "0 \<le> code \<Longrightarrow> \<exists>label. key_label code = Inr label"
  by (simp add: key_label_def chr_def split: option.split)

lemma succeeds_character_cell:
  assumes "glyph_faults_only be" "0 \<le> code"
  shows "succeeds (character_cell be L font_id start_code code n)"
proof -
  obtain label where l: "key_label code = Inr label"
    using key_label_ok [OF assms(2)] by blast
  show ?thesis
    unfolding character_cell_def Let_def l
    by (auto intro!: succeeds_ok succeeds_and_then succeeds_calls succeeds_call succeeds_lift
        succeeds_draw_glyph assms(1) simp: sure_def font_size_label_def)
qed

lemma succeeds_extended_cell:
  assumes "glyph_faults_only be"
  shows "succeeds (extended_cell be L font_id start_code code n)"
  unfolding extended_cell_def Let_def
  by (auto intro!: succeeds_ok succeeds_and_then succeeds_calls succeeds_call
      succeeds_draw_glyph assms(1) simp: sure_def font_size_label_def)

lemma page_codes_ge: "code \<in> set (page_codes start_code end_code) \<Longrightarrow> start_code \<le> code"
  by (auto simp: page_codes_def py_range_def)

lemma succeeds_character_grid:
  assumes "glyph_faults_only be" "0 \<le> start_code"
  shows "succeeds (draw_character_grid be L font_id font_name start_code end_code)"
  unfolding draw_character_grid_def
proof (rule succeeds_for_loop)
  fix code a
  assume "code \<in> set (page_codes start_code end_code)"
  then have "0 \<le> code" using page_codes_ge assms(2) by fastforce
  then show "succeeds (character_cell be L font_id start_code code a)"
    by (rule succeeds_character_cell [OF assms(1)])
qed

lemma succeeds_extended_grid:
  assumes "glyph_faults_only be"
  shows "succeeds (draw_extended_grid be L font_id font_name start_code end_code)"
  unfolding draw_extended_grid_def
  by (intro succeeds_for_loop succeeds_extended_cell assms)

lemma glyph_faults_only_quiet: "glyph_faults_only quiet_backend"
  by (simp add: glyph_faults_only_def quiet_backend_def)

lemma glyph_faults_only_no_glyph_B: "glyph_faults_only no_glyph_B"
  by (auto simp: glyph_faults_only_def no_glyph_B_def lit_def split: draw_op.splits if_splits)

text \<open>
  Claim C1. Whatever the range, the backend and the state, a grid draws at most
  224 cell borders, and no more than the range has code points: the loop runs over the
  codes from the start up to \<open>min (end + 1) (start + rows * cols)\<close>, all of which lie in the
  range and in a row below the row count.
\<close>

theorem grid_capacity:
  "length (rect_calls (drawn (draw_character_grid be L font_id font_name start_code end_code) w)) \<le> 224
   \<and> length (rect_calls (drawn (draw_extended_grid be L font_id font_name start_code end_code) w)) \<le> 224
   \<and> length (rect_calls (drawn (draw_character_grid be L font_id font_name start_code end_code) w))
        \<le> length (page_codes start_code end_code)
   \<and> length (rect_calls (drawn (draw_extended_grid be L font_id font_name start_code end_code) w))
        \<le> length (page_codes start_code end_code)
   \<and> rows * cols = 224
   \<and> length (page_codes start_code end_code)
        = nat (min (end_code + 1) (start_code + rows * cols) - start_code)
   \<and> (\<forall>code \<in> set (page_codes start_code end_code).
         start_code \<le> code \<and> code \<le> end_code \<and> (code - start_code) div cols < rows)"
proof -
  have n: "length (page_codes start_code end_code) \<le> 224"
    by (simp add: length_page_codes)
  have a: "length (rect_calls (drawn (draw_character_grid be L font_id font_name start_code end_code) w))
        \<le> length (page_codes start_code end_code)"
    using character_grid_rects [of L start_code end_code be font_id font_name w]
    by (auto simp: loop_rel_def)
  have b: "length (rect_calls (drawn (draw_extended_grid be L font_id font_name start_code end_code) w))
        \<le> length (page_codes start_code end_code)"
    using extended_grid_rects [of L start_code end_code be font_id font_name w]
    by (auto simp: loop_rel_def)
  have c: "length (page_codes start_code end_code)
        = nat (min (end_code + 1) (start_code + rows * cols) - start_code)"
    by (auto simp: page_codes_def py_range_def)
  have d: "\<forall>code \<in> set (page_codes start_code end_code).
         start_code \<le> code \<and> code \<le> end_code \<and> (code - start_code) div cols < rows"
    by (auto simp: page_codes_def py_range_def rows_def cols_def)
  show ?thesis
    using n a b c d by (simp add: rows_def cols_def)
qed

theorem grid_capacity_witness:
  "length (rect_calls (drawn (draw_extended_grid quiet_backend letter_landscape (lit ''F'') (lit ''F'')
      256 100000) fresh_world)) \<le> 224
   \<and> length (page_codes 256 100000) = 224
   \<and> 479 \<in> set (page_codes 256 100000) \<and> (479 - 256) div cols < rows"
proof -
  have "479 \<in> set (page_codes 256 100000)"
    by (simp add: set_page_codes)
  then show ?thesis
    using grid_capacity [of quiet_backend letter_landscape "lit ''F''" "lit ''F''" 256 100000 fresh_world]
    by (auto simp: rows_def cols_def)
qed




text \<open>
  Claim C8, amended. When a grid returns \<open>n\<close>, then \<open>n\<close> is the number of glyphs drawn in
  the font under test, and the other cells got the grey dash: the cell borders are \<open>n\<close>
  plus the number of placeholders. When nothing but the drawing of a glyph can fail, no
  failure leaves the cell: the extended grid returns, and so does the basic grid for a
  range that starts at a code point \<open>chr\<close> accepts.
\<close>

theorem glyph_failure_contained:
  "(\<forall>n. fst (draw_character_grid be L font_id font_name start_code end_code w) = Inr n \<longrightarrow>
       n = glyphs_drawn font_id p (drawn (draw_character_grid be L font_id font_name start_code end_code) w)
       \<and> length (rect_calls (drawn (draw_character_grid be L font_id font_name start_code end_code) w))
           = n + placeholders_drawn p (drawn (draw_character_grid be L font_id font_name start_code end_code) w))
   \<and> (\<forall>n. fst (draw_extended_grid be L font_id font_name start_code end_code w) = Inr n \<longrightarrow>
       n = glyphs_drawn font_id p (drawn (draw_extended_grid be L font_id font_name start_code end_code) w)
       \<and> length (rect_calls (drawn (draw_extended_grid be L font_id font_name start_code end_code) w))
           = n + placeholders_drawn p (drawn (draw_extended_grid be L font_id font_name start_code end_code) w))
   \<and> (glyph_faults_only be \<longrightarrow>
        (\<exists>n. fst (draw_extended_grid be L font_id font_name start_code end_code w) = Inr n)
        \<and> (0 \<le> start_code \<longrightarrow>
             (\<exists>n. fst (draw_character_grid be L font_id font_name start_code end_code w) = Inr n)))"
proof (intro conjI impI allI)
  fix n
  assume "fst (draw_character_grid be L font_id font_name start_code end_code w) = Inr n"
  then have a: "account font_id 0 n (drawn (draw_character_grid be L font_id font_name start_code end_code) w)"
    using character_grid_account by blast
  show "n = glyphs_drawn font_id p (drawn (draw_character_grid be L font_id font_name start_code end_code) w)"
    using a [unfolded account_def, rule_format, of p] by simp
  show "length (rect_calls (drawn (draw_character_grid be L font_id font_name start_code end_code) w))
           = n + placeholders_drawn p (drawn (draw_character_grid be L font_id font_name start_code end_code) w)"
    using a [unfolded account_def, rule_format, of p] by simp
next
  fix n
  assume "fst (draw_extended_grid be L font_id font_name start_code end_code w) = Inr n"
  then have a: "account font_id 0 n (drawn (draw_extended_grid be L font_id font_name start_code end_code) w)"
    using extended_grid_account by blast
  show "n = glyphs_drawn font_id p (drawn (draw_extended_grid be L font_id font_name start_code end_code) w)"
    using a [unfolded account_def, rule_format, of p] by simp
  show "length (rect_calls (drawn (draw_extended_grid be L font_id font_name start_code end_code) w))
           = n + placeholders_drawn p (drawn (draw_extended_grid be L font_id font_name start_code end_code) w)"
    using a [unfolded account_def, rule_format, of p] by simp
next
  assume g: "glyph_faults_only be"
  show "\<exists>n. fst (draw_extended_grid be L font_id font_name start_code end_code w) = Inr n"
    using succeeds_extended_grid [OF g] by (simp add: succeeds_def)
  assume "0 \<le> start_code"
  then show "\<exists>n. fst (draw_character_grid be L font_id font_name start_code end_code w) = Inr n"
    using succeeds_character_grid [OF g] by (simp add: succeeds_def)
qed

lemma for_loop_raises:
  assumes "fst (body code a w) = Inl e"
  shows "for_loop body (code # codes) a w = (Inl e, snd (body code a w))"
  using assms by (simp add: and_then_run)

lemma page_codes_basic_first: "page_codes 32 255 = 32 # [33..255]"
  by (simp add: page_codes_def py_range_def rows_def cols_def upto_rec1 [of 32 255])

lemma first_cell_no_centred:
  "character_cell no_centred letter_landscape (lit ''F'') 32 32 0 fresh_world
     = (Inl (Raised (lit ''no text'')),
        fresh_world\<lparr>canvas :=
          [(SetStrokeColorRGB 0.8 0.8 0.8, True), (Rect 21.6 511.2 36 36, True),
           (SetFont (lit ''Helvetica-Bold'') 6, True), (SetFillColorRGB 0.2 0.2 0.2, True),
           (DrawString 23.76 538.56 (lit ''Space''), True),
           (SetFont (lit ''Helvetica'') 6, True), (SetFillColorRGB 0.5 0.5 0.5, True),
           (DrawString 23.76 532.8 (lit ''32''), True),
           (DrawString 23.76 527.76 (lit ''x20''), True),
           (SetFont (lit ''F'') 20, True), (SetFillColorRGB 0 0 0, True),
           (DrawCentredString 39.6 522 [32], False),
           (SetFont (lit ''Helvetica'') 8, True), (SetFillColorRGB 0.8 0.8 0.8, True),
           (DrawCentredString 39.6 522 [8212], False)]\<rparr>)"
  by (simp add: character_cell_def draw_glyph_def Let_def and_then_def catch_def call_def ok_def
      lift_def key_label_def special_chars_def chr_def no_centred_def fresh_world_def
      letter_landscape_def x_start_def y_start_def margin_def cell_size_def rows_def cols_def
      font_size_char_def font_size_label_def truncate_label_def decimal_line_def hex_line_def
      str_int_def format_X_def zero_pad_def digits_of_step digits_of_small digit_char_def
      dash_def lit_def)

lemma grid_no_centred:
  "draw_character_grid no_centred letter_landscape (lit ''F'') (lit ''F'') 32 255 fresh_world
     = (Inl (Raised (lit ''no text'')),
        snd (character_cell no_centred letter_landscape (lit ''F'') 32 32 0 fresh_world))"
proof -
  have "for_loop (character_cell no_centred letter_landscape (lit ''F'') 32) (32 # [33..255]) 0
          fresh_world
      = (Inl (Raised (lit ''no text'')),
         snd (character_cell no_centred letter_landscape (lit ''F'') 32 32 0 fresh_world))"
    by (rule for_loop_raises) (simp add: first_cell_no_centred)
  then show ?thesis
    by (simp only: draw_character_grid_def page_codes_basic_first)
qed

text \<open>
  The handler itself is not protected. On a backend on which no centred text can be
  drawn, the glyph of the first cell fails, the dash fails as well, and that error
  leaves the cell and the grid; no placeholder has been drawn.
\<close>

theorem glyph_failure_contained_counterexample:
  "fst (draw_character_grid no_centred letter_landscape (lit ''F'') (lit ''F'') 32 255 fresh_world)
     = Inl (Raised (lit ''no text''))
   \<and> (DrawCentredString 39.6 522 [32], False)
       \<in> set (drawn (draw_character_grid no_centred letter_landscape (lit ''F'') (lit ''F'') 32 255)
                fresh_world)
   \<and> placeholders_drawn blank_pen
       (drawn (draw_character_grid no_centred letter_landscape (lit ''F'') (lit ''F'') 32 255)
          fresh_world) = 0"
  by (simp add: drawn_def grid_no_centred first_cell_no_centred)
    (simp add: fresh_world_def placeholders_drawn_def move_pen_def blank_pen_def)

lemma page_codes_65_67: "page_codes 65 67 = [65, 66, 67]"
  by (simp add: page_codes_def py_range_def rows_def cols_def upto_rec1)

lemma grid_no_glyph_B:
  "fst (draw_character_grid no_glyph_B letter_landscape (lit ''F'') (lit ''F'') 65 67 fresh_world)
     = Inr 2"
  by (simp add: draw_character_grid_def page_codes_65_67 character_cell_def draw_glyph_def Let_def
      and_then_def catch_def call_def ok_def lift_def key_label_def special_chars_def chr_def
      no_glyph_B_def fresh_world_def rows_def cols_def lit_def dash_def)

theorem glyph_failure_contained_witness:
  "glyph_faults_only no_glyph_B
   \<and> fst (draw_character_grid no_glyph_B letter_landscape (lit ''F'') (lit ''F'') 65 67 fresh_world)
       = Inr 2
   \<and> glyphs_drawn (lit ''F'') blank_pen
       (drawn (draw_character_grid no_glyph_B letter_landscape (lit ''F'') (lit ''F'') 65 67)
          fresh_world) = 2
   \<and> placeholders_drawn blank_pen
       (drawn (draw_character_grid no_glyph_B letter_landscape (lit ''F'') (lit ''F'') 65 67)
          fresh_world) = 1
   \<and> length (rect_calls
       (drawn (draw_character_grid no_glyph_B letter_landscape (lit ''F'') (lit ''F'') 65 67)
          fresh_world)) = 3"
proof -
  have "loop_rel (cell_rect letter_landscape 65) (page_codes 65 67)
     (fst (draw_character_grid no_glyph_B letter_landscape (lit ''F'') (lit ''F'') 65 67 fresh_world))
     (drawn (draw_character_grid no_glyph_B letter_landscape (lit ''F'') (lit ''F'') 65 67) fresh_world)"
    by (rule character_grid_rects)
  then have r: "length (rect_calls
       (drawn (draw_character_grid no_glyph_B letter_landscape (lit ''F'') (lit ''F'') 65 67)
          fresh_world)) = 3"
    by (auto simp: loop_rel_def grid_no_glyph_B page_codes_65_67)
  show ?thesis
    using glyph_failure_contained [of no_glyph_B letter_landscape "lit ''F''" "lit ''F''" 65 67
      fresh_world blank_pen] glyph_faults_only_no_glyph_B grid_no_glyph_B r
    by auto
qed

section \<open>The texts of the cells\<close>

lemma texts_drawn_append [simp]: "texts_drawn (a @ b) = texts_drawn a @ texts_drawn b"
  by (simp add: texts_drawn_def)

lemma texts_drawn_Nil [simp]: "texts_drawn [] = []"
  by (simp add: texts_drawn_def)

lemma texts_drawn_failed [simp]: "texts_drawn [(op, False)] = []"
  by (simp add: texts_drawn_def text_of_def split: draw_op.split)

lemma shownI:
  assumes "texts_drawn evs = take j e" "\<And>x. r = Inr x \<Longrightarrow> texts_drawn evs = e"
  shows "shown e r evs"
  using assms unfolding shown_def by blast

lemma shown_calls:
  assumes "texts_drawn (map (\<lambda>op. (op, True)) ops) = e"
  shows "does (shown e) (calls be ops)"
proof (rule does_mono [OF does_calls])
  fix r evs
  assume "calls_events ops r evs"
  then consider "r = Inr ()" "evs = map (\<lambda>op. (op, True)) ops"
    | err pre op post where "r = Inl err" "ops = pre @ op # post"
        "evs = map (\<lambda>op. (op, True)) pre @ [(op, False)]"
    by (auto simp: calls_events_def)
  then show "shown e r evs"
  proof cases
    case 1
    then have "texts_drawn evs = take (length e) e" "texts_drawn evs = e"
      using assms by simp_all
    then show ?thesis by (rule shownI)
  next
    case 2
    have "e = texts_drawn (map (\<lambda>op. (op, True)) pre) @ texts_drawn (map (\<lambda>op. (op, True)) (op # post))"
      using assms 2(2) by simp
    then have "texts_drawn evs = take (length (texts_drawn (map (\<lambda>op. (op, True)) pre))) e"
      using 2(3) by simp
    then show ?thesis
      by (rule shownI) (simp add: 2(1))
  qed
qed

lemma shown_and_then:
  assumes m: "does (shown e1) m" and f: "\<And>x. does (shown e2) (f x)" and e: "e = e1 @ e2"
  shows "does (shown e) (and_then m f)"
proof (rule does_and_then [where ?R1.0 = "shown e1" and ?R2.0 = "\<lambda>_. shown e2"])
  show "does (shown e1) m" by (rule m)
  show "does (shown e2) (f x)" for x by (rule f)
next
  fix err a
  assume "shown e1 (Inl err :: error + 'a) a"
  then obtain j where "texts_drawn a = take j e1"
    by (auto simp: shown_def)
  then have "texts_drawn a = take (min j (length e1)) e"
    by (simp add: e min_def)
  then show "shown e (Inl err) a"
    by (rule shownI) simp
next
  fix x a s b
  assume a: "shown e1 (Inr x :: error + 'a) a" and b: "shown e2 (s :: error + 'b) b"
  from a have a': "texts_drawn a = e1"
    by (auto simp: shown_def)
  from b obtain j where j: "texts_drawn b = take j e2" and r: "(\<exists>y. s = Inr y) \<longrightarrow> texts_drawn b = e2"
    unfolding shown_def by blast
  have "texts_drawn (a @ b) = take (length e1 + j) e"
    by (simp add: a' j e)
  moreover have "texts_drawn (a @ b) = e" if "s = Inr y" for y
    using that r a' e by simp
  ultimately show "shown e s (a @ b)"
    by (rule shownI)
qed

lemma texts_drawn_silent: "list_all (\<lambda>ev. \<not> is_text (fst ev)) evs \<Longrightarrow> texts_drawn evs = []"
  by (induction evs) (auto simp: texts_drawn_def text_of_def split: draw_op.split)

lemma shown_silent:
  assumes "emits (\<lambda>op. \<not> is_text op) m"
  shows "does (shown []) m"
  using assms unfolding emits_def
  by (rule does_mono) (simp add: shown_def texts_drawn_silent)

lemma for_loop_shown:
  assumes "\<And>code a. code \<in> set codes \<Longrightarrow> does (shown (f code)) (body code a)"
    and "\<And>code a w. code \<in> set codes \<Longrightarrow> fst (body code a w) \<noteq> Inr Break"
  shows "does (shown (concat (map f codes))) (for_loop body codes a)"
  using assms
proof (induction codes arbitrary: a)
  case Nil
  show ?case by (simp add: does_ok shown_def)
next
  case (Cons code codes)
  have ih: "does (shown (concat (map f codes))) (for_loop body codes a')" for a'
    by (rule Cons.IH) (simp_all add: Cons.prems)
  have cell: "does (\<lambda>r evs. shown (f code) r evs \<and> r \<noteq> Inr Break) (body code a)"
    by (rule does_result) (simp_all add: Cons.prems)
  show ?case
    unfolding for_loop.simps
  proof (rule does_and_then [where ?R1.0 = "\<lambda>r evs. shown (f code) r evs \<and> r \<noteq> Inr Break"
        and ?R2.0 = "\<lambda>x r evs. x \<noteq> Break \<longrightarrow> shown (concat (map f codes)) r evs"])
    show "does (\<lambda>r evs. shown (f code) r evs \<and> r \<noteq> Inr Break) (body code a)"
      by (rule cell)
    show "does (\<lambda>r evs. x \<noteq> Break \<longrightarrow> shown (concat (map f codes)) r evs)
            (case x of Break \<Rightarrow> ok a | Next a' \<Rightarrow> for_loop body codes a')" for x
      by (cases x) (simp_all add: does_ok ih)
  next
    fix e b
    assume "shown (f code) (Inl e) b \<and> Inl e \<noteq> (Inr Break :: error + 'a step)"
    then obtain j where "texts_drawn b = take j (f code)"
      by (auto simp: shown_def)
    then have "texts_drawn b = take (min j (length (f code))) (concat (map f (code # codes)))"
      by (simp add: min_def)
    then show "shown (concat (map f (code # codes))) (Inl e) b"
      by (rule shownI) simp
  next
    fix x b s c
    assume 1: "shown (f code) (Inr x) b \<and> Inr x \<noteq> (Inr Break :: error + 'a step)"
      and 2: "x \<noteq> Break \<longrightarrow> shown (concat (map f codes)) s c"
    from 1 have b: "texts_drawn b = f code" and "x \<noteq> Break"
      by (auto simp: shown_def)
    with 2 obtain j where j: "texts_drawn c = take j (concat (map f codes))"
      and r: "(\<exists>n. s = Inr n) \<longrightarrow> texts_drawn c = concat (map f codes)"
      unfolding shown_def by blast
    have "texts_drawn (b @ c) = take (length (f code) + j) (concat (map f (code # codes)))"
      by (simp add: b j)
    moreover have "texts_drawn (b @ c) = concat (map f (code # codes))" if "s = Inr n" for n
      using that r b by simp
    ultimately show "shown (concat (map f (code # codes))) s (b @ c)"
      by (rule shownI)
  qed
qed

lemma and_then_lift_Inr: "and_then (lift (Inr x)) f = f x"
  by (rule ext) (simp add: and_then_def lift_def)

lemma glyph_silent:
  "does (shown [])
     (and_then (draw_glyph be L font_id x y code n) (\<lambda>m.
        and_then (call be (SetFillColorRGB 0 0 0)) (\<lambda>_. ok (Next m))))"
  by (rule shown_silent)
    (intro emits_and_then emits_call emits_ok emits_draw_glyph, simp_all)

lemma character_cell_shown:
  assumes "code - start_code < 224" "key_label code = Inr label"
  shows "does (shown [truncate_label label, decimal_line code, hex_line code])
           (character_cell be L font_id start_code code n)"
proof -
  have r: "\<not> rows \<le> (code - start_code) div cols"
    using assms by (simp add: rows_def cols_def)
  show ?thesis
    unfolding character_cell_def Let_def
    apply (simp only: r if_False assms(2) and_then_lift_Inr)
    apply (rule shown_and_then [where ?e1.0 = "[]"
          and ?e2.0 = "[truncate_label label, decimal_line code, hex_line code]"])
      apply (rule shown_calls)
      apply (simp add: texts_drawn_def text_of_def)
     apply (rule shown_and_then [where ?e2.0 = "[]"
          and ?e1.0 = "[truncate_label label, decimal_line code, hex_line code]"])
       apply (rule shown_calls)
       apply (simp add: texts_drawn_def text_of_def)
      apply (rule glyph_silent)
     apply simp
    apply simp
    done
qed

lemma extended_cell_shown:
  assumes "code - start_code < 224"
  shows "does (shown [unicode_label code, decimal_line code])
           (extended_cell be L font_id start_code code n)"
proof -
  have r: "\<not> rows \<le> (code - start_code) div cols"
    using assms by (simp add: rows_def cols_def)
  show ?thesis
    unfolding extended_cell_def Let_def
    apply (simp only: r if_False)
    apply (rule shown_and_then [where ?e2.0 = "[]"
          and ?e1.0 = "[unicode_label code, decimal_line code]"])
      apply (rule shown_calls)
      apply (simp add: texts_drawn_def text_of_def)
     apply (rule glyph_silent)
    apply simp
    done
qed

lemma basic_label_key:
  assumes "0 \<le> code" "code < 65536"
  shows "key_label code = Inr (basic_label code)" "truncate_label (basic_label code) = basic_label code"
proof -
  show k: "key_label code = Inr (basic_label code)"
    using assms by (simp add: key_label_value basic_label_def)
  show "truncate_label (basic_label code) = basic_label code"
    using assms k by (intro truncate_short key_label_length)
qed

lemma basic_grid_shown:
  "does (shown (concat (map (\<lambda>code. [basic_label code, decimal_line code, hex_line code])
            (page_codes 32 255))))
     (draw_character_grid be L font_id font_name 32 255)"
  unfolding draw_character_grid_def
proof (rule for_loop_shown)
  fix code :: int and a :: nat
  assume c: "code \<in> set (page_codes 32 255)"
  then have r: "0 \<le> code" "code < 65536"
    by (simp_all add: page_codes_basic)
  show "does (shown [basic_label code, decimal_line code, hex_line code])
          (character_cell be L font_id 32 code a)"
    using character_cell_shown [OF page_codes_in_range [OF c] basic_label_key(1) [OF r]]
    by (simp add: basic_label_key(2) [OF r])
next
  fix code :: int and a :: nat and w
  assume "code \<in> set (page_codes 32 255)"
  then show "fst (character_cell be L font_id 32 code a w) \<noteq> Inr Break"
    by (intro character_cell_no_break page_codes_in_range)
qed

lemma extended_grid_shown:
  "does (shown (concat (map (\<lambda>code. [unicode_label code, decimal_line code])
            (page_codes 256 511))))
     (draw_extended_grid be L font_id font_name 256 511)"
  unfolding draw_extended_grid_def
proof (rule for_loop_shown)
  fix code :: int and a :: nat
  assume c: "code \<in> set (page_codes 256 511)"
  show "does (shown [unicode_label code, decimal_line code])
          (extended_cell be L font_id 256 code a)"
    by (rule extended_cell_shown [OF page_codes_in_range [OF c]])
next
  fix code :: int and a :: nat and w
  assume "code \<in> set (page_codes 256 511)"
  then show "fst (extended_cell be L font_id 256 code a w) \<noteq> Inr Break"
    by (intro extended_cell_no_break page_codes_in_range)
qed

lemma nth_triples:
  assumes "i < length cs"
  shows "concat (map (\<lambda>c. [f c, g c, h c]) cs) ! (3 * i) = f (cs ! i)"
    "concat (map (\<lambda>c. [f c, g c, h c]) cs) ! (3 * i + 1) = g (cs ! i)"
    "concat (map (\<lambda>c. [f c, g c, h c]) cs) ! (3 * i + 2) = h (cs ! i)"
  using assms
proof (induction cs arbitrary: i)
  case Nil
  {
    case 1 then show ?case by simp
  next
    case 2 then show ?case by simp
  next
    case 3 then show ?case by simp
  }
next
  case (Cons c cs)
  {
    case 1 then show ?case using Cons.IH(1) [of "i - 1"] by (cases i) simp_all
  next
    case 2 then show ?case using Cons.IH(2) [of "i - 1"] by (cases i) simp_all
  next
    case 3 then show ?case using Cons.IH(3) [of "i - 1"] by (cases i) simp_all
  }
qed

lemma nth_pairs:
  assumes "i < length cs"
  shows "concat (map (\<lambda>c. [f c, g c]) cs) ! (2 * i) = f (cs ! i)"
    "concat (map (\<lambda>c. [f c, g c]) cs) ! (2 * i + 1) = g (cs ! i)"
  using assms
proof (induction cs arbitrary: i)
  case Nil
  {
    case 1 then show ?case by simp
  next
    case 2 then show ?case by simp
  }
next
  case (Cons c cs)
  {
    case 1 then show ?case using Cons.IH(1) [of "i - 1"] by (cases i) simp_all
  next
    case 2 then show ?case using Cons.IH(2) [of "i - 1"] by (cases i) simp_all
  }
qed

lemma length_triples: "length (concat (map (\<lambda>c. [f c, g c, h c]) cs)) = 3 * length cs"
  by (induction cs) simp_all

lemma length_pairs: "length (concat (map (\<lambda>c. [f c, g c]) cs)) = 2 * length cs"
  by (induction cs) simp_all

lemma nth_page_codes:
  assumes "i < length (page_codes start_code end_code)"
  shows "page_codes start_code end_code ! i = start_code + int i"
  using assms by (simp add: page_codes_def py_range_def rows_def cols_def min_def split: if_splits)

lemma digits_of_10_hd: "0 < n \<Longrightarrow> digits_of 10 n \<noteq> [] \<and> hd (digits_of 10 n) \<noteq> 48"
proof (induction n rule: less_induct)
  case (less n)
  show ?case
  proof (cases "n < 10")
    case True
    then show ?thesis
      using less.prems by (simp add: digits_of_small digit_char_decimal)
  next
    case False
    then have "n div 10 < n" "0 < n div 10" by simp_all
    then have "digits_of 10 (n div 10) \<noteq> [] \<and> hd (digits_of 10 (n div 10)) \<noteq> 48"
      by (rule less.IH)
    with False show ?thesis
      by (simp add: digits_of_step)
  qed
qed

lemma shows_code_decimal_line: "0 < code \<Longrightarrow> shows_code code (decimal_line code)"
  using digits_of_10_hd [of "nat code"]
  by (simp add: shows_code_def decimal_line_def str_int_def is_decimal_digits decimal_value_digits)

lemma basic_texts_prefix:
  "\<exists>j. basic_page_texts be L font_id font_name w
         = take j (concat (map (\<lambda>code. [basic_label code, decimal_line code, hex_line code])
             (page_codes 32 255)))"
  using drawn_does [OF basic_grid_shown, of be L font_id font_name w]
  by (simp add: shown_def basic_page_texts_def)

lemma basic_texts_all:
  assumes "fst (draw_character_grid be L font_id font_name 32 255 w) = Inr n"
  shows "basic_page_texts be L font_id font_name w
         = concat (map (\<lambda>code. [basic_label code, decimal_line code, hex_line code])
             (page_codes 32 255))"
  using drawn_does [OF basic_grid_shown, of be L font_id font_name w] assms
  by (simp add: shown_def basic_page_texts_def)

lemma extended_texts_prefix:
  "\<exists>j. extended_page_texts be L font_id font_name w
         = take j (concat (map (\<lambda>code. [unicode_label code, decimal_line code])
             (page_codes 256 511)))"
  using drawn_does [OF extended_grid_shown, of be L font_id font_name w]
  by (simp add: shown_def extended_page_texts_def)

lemma extended_texts_all:
  assumes "fst (draw_extended_grid be L font_id font_name 256 511 w) = Inr n"
  shows "extended_page_texts be L font_id font_name w
         = concat (map (\<lambda>code. [unicode_label code, decimal_line code])
             (page_codes 256 511))"
  using drawn_does [OF extended_grid_shown, of be L font_id font_name w] assms
  by (simp add: shown_def extended_page_texts_def)

lemma length_basic_codes: "length (page_codes 32 255) = 224"
  by (simp add: length_page_codes)

lemma length_extended_codes: "length (page_codes 256 511) = 224"
  by (simp add: length_page_codes)

lemma length_basic_texts: "length (basic_page_texts be L font_id font_name w) \<le> 672"
proof -
  obtain j where "basic_page_texts be L font_id font_name w
         = take j (concat (map (\<lambda>code. [basic_label code, decimal_line code, hex_line code])
             (page_codes 32 255)))"
    using basic_texts_prefix by blast
  then show ?thesis
    by (simp add: length_triples length_basic_codes)
qed

lemma length_extended_texts: "length (extended_page_texts be L font_id font_name w) \<le> 448"
proof -
  obtain j where "extended_page_texts be L font_id font_name w
         = take j (concat (map (\<lambda>code. [unicode_label code, decimal_line code])
             (page_codes 256 511)))"
    using extended_texts_prefix by blast
  then show ?thesis
    by (simp add: length_pairs length_extended_codes)
qed

text \<open>The three texts of the cell with number \<open>i\<close> on the basic page, as far as drawn.\<close>

lemma basic_texts_nth:
  fixes i :: nat
  shows "3 * i < length (basic_page_texts be L font_id font_name w)
      \<Longrightarrow> i < 224 \<and> basic_page_texts be L font_id font_name w ! (3 * i) = basic_label (32 + int i)"
    "3 * i + 1 < length (basic_page_texts be L font_id font_name w)
      \<Longrightarrow> i < 224 \<and> basic_page_texts be L font_id font_name w ! (3 * i + 1) = decimal_line (32 + int i)"
    "3 * i + 2 < length (basic_page_texts be L font_id font_name w)
      \<Longrightarrow> i < 224 \<and> basic_page_texts be L font_id font_name w ! (3 * i + 2) = hex_line (32 + int i)"
proof -
  let ?T = "basic_page_texts be L font_id font_name w"
  let ?E = "concat (map (\<lambda>code. [basic_label code, decimal_line code, hex_line code])
             (page_codes 32 255))"
  obtain j where j: "?T = take j ?E"
    using basic_texts_prefix by blast
  have l: "length ?T \<le> 672"
    by (rule length_basic_texts)
  have c: "page_codes 32 255 ! i = 32 + int i" if "i < 224"
    using that by (simp add: nth_page_codes length_basic_codes)
  have n: "?T ! k = ?E ! k" if "k < length ?T" for k
    using that by (subst j) (simp add: j)
  show "3 * i < length ?T \<Longrightarrow> i < 224 \<and> ?T ! (3 * i) = basic_label (32 + int i)"
  proof -
    assume a: "3 * i < length ?T"
    then have i: "i < 224" using l by simp
    show ?thesis
      using i n [OF a] nth_triples(1) [where i = i and cs = "page_codes 32 255" and f = basic_label
          and g = decimal_line and h = hex_line]
      by (simp add: length_basic_codes c)
  qed
  show "3 * i + 1 < length ?T \<Longrightarrow> i < 224 \<and> ?T ! (3 * i + 1) = decimal_line (32 + int i)"
  proof -
    assume a: "3 * i + 1 < length ?T"
    then have i: "i < 224" using l by simp
    show ?thesis
      using i n [OF a] nth_triples(2) [where i = i and cs = "page_codes 32 255" and f = basic_label
          and g = decimal_line and h = hex_line]
      by (simp add: length_basic_codes c)
  qed
  show "3 * i + 2 < length ?T \<Longrightarrow> i < 224 \<and> ?T ! (3 * i + 2) = hex_line (32 + int i)"
  proof -
    assume a: "3 * i + 2 < length ?T"
    then have i: "i < 224" using l by simp
    show ?thesis
      using i n [OF a] nth_triples(3) [where i = i and cs = "page_codes 32 255" and f = basic_label
          and g = decimal_line and h = hex_line]
      by (simp add: length_basic_codes c)
  qed
qed

lemma extended_texts_nth:
  fixes i :: nat
  shows "2 * i < length (extended_page_texts be L font_id font_name w)
      \<Longrightarrow> i < 224 \<and> extended_page_texts be L font_id font_name w ! (2 * i) = unicode_label (256 + int i)"
    "2 * i + 1 < length (extended_page_texts be L font_id font_name w)
      \<Longrightarrow> i < 224 \<and> extended_page_texts be L font_id font_name w ! (2 * i + 1) = decimal_line (256 + int i)"
proof -
  let ?T = "extended_page_texts be L font_id font_name w"
  let ?E = "concat (map (\<lambda>code. [unicode_label code, decimal_line code]) (page_codes 256 511))"
  obtain j where j: "?T = take j ?E"
    using extended_texts_prefix by blast
  have l: "length ?T \<le> 448"
    by (rule length_extended_texts)
  have c: "page_codes 256 511 ! i = 256 + int i" if "i < 224"
    using that by (simp add: nth_page_codes length_extended_codes)
  have n: "?T ! k = ?E ! k" if "k < length ?T" for k
    using that by (subst j) (simp add: j)
  show "2 * i < length ?T \<Longrightarrow> i < 224 \<and> ?T ! (2 * i) = unicode_label (256 + int i)"
  proof -
    assume a: "2 * i < length ?T"
    then have i: "i < 224" using l by simp
    show ?thesis
      using i n [OF a] nth_pairs(1) [where i = i and cs = "page_codes 256 511" and f = unicode_label
          and g = decimal_line]
      by (simp add: length_extended_codes c)
  qed
  show "2 * i + 1 < length ?T \<Longrightarrow> i < 224 \<and> ?T ! (2 * i + 1) = decimal_line (256 + int i)"
  proof -
    assume a: "2 * i + 1 < length ?T"
    then have i: "i < 224" using l by simp
    show ?thesis
      using i n [OF a] nth_pairs(2) [where i = i and cs = "page_codes 256 511" and f = unicode_label
          and g = decimal_line]
      by (simp add: length_extended_codes c)
  qed
qed

lemma length_basic_texts_all:
  assumes "fst (draw_character_grid be L font_id font_name 32 255 w) = Inr n"
  shows "length (basic_page_texts be L font_id font_name w) = 672"
  by (simp add: basic_texts_all [OF assms] length_triples length_basic_codes)

lemma length_extended_texts_all:
  assumes "fst (draw_extended_grid be L font_id font_name 256 511 w) = Inr n"
  shows "length (extended_page_texts be L font_id font_name w) = 448"
  by (simp add: extended_texts_all [OF assms] length_pairs length_extended_codes)

lemma basic_label_cases:
  assumes "0 \<le> code"
  shows "(\<forall>name. map_of special_chars code = Some name \<longrightarrow> basic_label code = name)
     \<and> ((48 \<le> code \<and> code \<le> 57) \<or> (65 \<le> code \<and> code \<le> 90) \<or> (97 \<le> code \<and> code \<le> 122)
          \<longrightarrow> basic_label code = [nat code])
     \<and> (map_of special_chars code = None \<and> code < 127 \<longrightarrow> basic_label code = [nat code])
     \<and> (map_of special_chars code = None \<and> 127 \<le> code
          \<longrightarrow> basic_label code = lit ''U+'' @ hex_digits 4 code)"
  using special_chars_none [of code]
  by (auto simp: basic_label_def)

lemma basic_label_examples:
  "basic_label 32 = lit ''Space''" "basic_label 65 = lit ''A''" "basic_label 200 = lit ''U+00C8''"
  by (simp_all add: basic_label_def special_chars_def lit_def hex_digits_def hex_digit_def upt_rec)

lemma line_examples: "decimal_line 65 = lit ''65''" "hex_line 65 = lit ''x41''"
proof -
  show "decimal_line 65 = lit ''65''"
    by (simp add: decimal_line_def str_int_def digits_of_step digits_of_small lit_def
        digit_char_def)
  show "hex_line 65 = lit ''x41''"
    by (simp add: hex_line_def format_X_2 hex_digits_def lit_def hex_digit_def upt_rec)
qed

text \<open>
  Claim C3. The label of a cell is the first of the texts that its round of the loop
  draws. On the basic page, as far as it is drawn, the label of the cell of code point
  \<open>32 + i\<close> is the entry of the table of special names when there is one, the
  character itself for a digit or a letter, the raw character for any other code below
  127, and \<open>U+\<close> with four upper-case hexadecimal digits from 127 on when the table has no
  entry. On the extended page the label of the cell of \<open>256 + i\<close> is \<open>U+\<close> with four
  hexadecimal digits. When the grid returns, all 224 cells have their texts, and the
  labels of the codes 32, 65 and 200 read \<open>Space\<close>, \<open>A\<close> and \<open>U+00C8\<close>.
\<close>

theorem key_label_cases:
  "(\<forall>i. 3 * i < length (basic_page_texts be L font_id font_name w) \<longrightarrow>
       i < 224
       \<and> (\<forall>name. map_of special_chars (32 + int i) = Some name \<longrightarrow>
            basic_page_texts be L font_id font_name w ! (3 * i) = name)
       \<and> ((48 \<le> 32 + int i \<and> 32 + int i \<le> 57) \<or> (65 \<le> 32 + int i \<and> 32 + int i \<le> 90)
            \<or> (97 \<le> 32 + int i \<and> 32 + int i \<le> 122) \<longrightarrow>
            basic_page_texts be L font_id font_name w ! (3 * i) = [nat (32 + int i)])
       \<and> (map_of special_chars (32 + int i) = None \<and> 32 + int i < 127 \<longrightarrow>
            basic_page_texts be L font_id font_name w ! (3 * i) = [nat (32 + int i)])
       \<and> (map_of special_chars (32 + int i) = None \<and> 127 \<le> 32 + int i \<longrightarrow>
            basic_page_texts be L font_id font_name w ! (3 * i)
              = lit ''U+'' @ hex_digits 4 (32 + int i)))
   \<and> ((\<exists>n. fst (draw_character_grid be L font_id font_name 32 255 w) = Inr n) \<longrightarrow>
         length (basic_page_texts be L font_id font_name w) = 3 * 224
         \<and> basic_page_texts be L font_id font_name w ! (3 * 0) = lit ''Space''
         \<and> basic_page_texts be L font_id font_name w ! (3 * 33) = lit ''A''
         \<and> basic_page_texts be L font_id font_name w ! (3 * 168) = lit ''U+00C8'')
   \<and> (\<forall>i. 2 * i < length (extended_page_texts be L font_id font_name w) \<longrightarrow>
         i < 224
         \<and> extended_page_texts be L font_id font_name w ! (2 * i)
             = lit ''U+'' @ hex_digits 4 (256 + int i))
   \<and> ((\<exists>n. fst (draw_extended_grid be L font_id font_name 256 511 w) = Inr n) \<longrightarrow>
         length (extended_page_texts be L font_id font_name w) = 2 * 224)"
proof (intro conjI allI impI)
  fix i :: nat
  assume a: "3 * i < length (basic_page_texts be L font_id font_name w)"
  note t = basic_texts_nth(1) [OF a]
  note c = basic_label_cases [of "32 + int i"]
  show "i < 224" using t by simp
  show "basic_page_texts be L font_id font_name w ! (3 * i) = name"
    if "map_of special_chars (32 + int i) = Some name" for name
    using t c that by simp
  show "basic_page_texts be L font_id font_name w ! (3 * i) = [nat (32 + int i)]"
    if "(48 \<le> 32 + int i \<and> 32 + int i \<le> 57) \<or> (65 \<le> 32 + int i \<and> 32 + int i \<le> 90)
            \<or> (97 \<le> 32 + int i \<and> 32 + int i \<le> 122)"
    using t c that by auto
  show "basic_page_texts be L font_id font_name w ! (3 * i) = [nat (32 + int i)]"
    if "map_of special_chars (32 + int i) = None \<and> 32 + int i < 127"
    using t c that by simp
  show "basic_page_texts be L font_id font_name w ! (3 * i) = lit ''U+'' @ hex_digits 4 (32 + int i)"
    if "map_of special_chars (32 + int i) = None \<and> 127 \<le> 32 + int i"
    using t c that by simp
next
  assume "\<exists>n. fst (draw_character_grid be L font_id font_name 32 255 w) = Inr n"
  then obtain n where n: "fst (draw_character_grid be L font_id font_name 32 255 w) = Inr n"
    by blast
  show l: "length (basic_page_texts be L font_id font_name w) = 3 * 224"
    using length_basic_texts_all [OF n] by simp
  show "basic_page_texts be L font_id font_name w ! (3 * 0) = lit ''Space''"
    using basic_texts_nth(1) [where i = 0 and be = be and L = L and font_id = font_id and font_name = font_name and w = w] l
    by (simp add: basic_label_examples)
  show "basic_page_texts be L font_id font_name w ! (3 * 33) = lit ''A''"
    using basic_texts_nth(1) [where i = 33 and be = be and L = L and font_id = font_id and font_name = font_name and w = w] l
    by (simp add: basic_label_examples)
  show "basic_page_texts be L font_id font_name w ! (3 * 168) = lit ''U+00C8''"
    using basic_texts_nth(1) [where i = 168 and be = be and L = L and font_id = font_id and font_name = font_name and w = w] l
    by (simp add: basic_label_examples)
next
  fix i :: nat
  assume a: "2 * i < length (extended_page_texts be L font_id font_name w)"
  note t = extended_texts_nth(1) [OF a]
  show "i < 224" using t by simp
  then have "0 \<le> 256 + int i" "256 + int i < 65536" by simp_all
  then show "extended_page_texts be L font_id font_name w ! (2 * i)
             = lit ''U+'' @ hex_digits 4 (256 + int i)"
    using t by (simp add: unicode_label_def format_X_4)
next
  assume "\<exists>n. fst (draw_extended_grid be L font_id font_name 256 511 w) = Inr n"
  then obtain n where n: "fst (draw_extended_grid be L font_id font_name 256 511 w) = Inr n"
    by blast
  show "length (extended_page_texts be L font_id font_name w) = 2 * 224"
    using length_extended_texts_all [OF n] by simp
qed

theorem key_label_cases_witness:
  "length (basic_page_texts quiet_backend letter_landscape (lit ''F'') (lit ''F'') fresh_world) = 672
   \<and> basic_page_texts quiet_backend letter_landscape (lit ''F'') (lit ''F'') fresh_world ! 0
       = lit ''Space''
   \<and> basic_page_texts quiet_backend letter_landscape (lit ''F'') (lit ''F'') fresh_world ! 99
       = lit ''A''
   \<and> basic_page_texts quiet_backend letter_landscape (lit ''F'') (lit ''F'') fresh_world ! 285
       = lit ''DEL''
   \<and> basic_page_texts quiet_backend letter_landscape (lit ''F'') (lit ''F'') fresh_world ! 504
       = lit ''U+00C8''
   \<and> length (extended_page_texts quiet_backend letter_landscape (lit ''F'') (lit ''F'') fresh_world)
       = 448
   \<and> extended_page_texts quiet_backend letter_landscape (lit ''F'') (lit ''F'') fresh_world ! 2
       = lit ''U+0101''"
proof -
  have b: "\<exists>n. fst (draw_character_grid quiet_backend letter_landscape (lit ''F'') (lit ''F'')
      32 255 fresh_world) = Inr n"
    using succeeds_character_grid [OF glyph_faults_only_quiet, of 32]
    by (simp add: succeeds_def)
  have e: "\<exists>n. fst (draw_extended_grid quiet_backend letter_landscape (lit ''F'') (lit ''F'')
      256 511 fresh_world) = Inr n"
    using succeeds_extended_grid [OF glyph_faults_only_quiet]
    by (simp add: succeeds_def)
  have d: "map_of special_chars (32 + int 95) = Some (lit ''DEL'')"
    by (simp add: special_chars_def)
  have h: "lit ''U+'' @ hex_digits 4 (256 + int 1) = lit ''U+0101''"
    by (simp add: hex_digits_def hex_digit_def upt_rec lit_def)
  note k = key_label_cases [of quiet_backend letter_landscape "lit ''F''" "lit ''F''" fresh_world]
  from k b have 1: "length (basic_page_texts quiet_backend letter_landscape (lit ''F'') (lit ''F'')
      fresh_world) = 672"
    by simp
  from k e have 2: "length (extended_page_texts quiet_backend letter_landscape (lit ''F'')
      (lit ''F'') fresh_world) = 448"
    by simp
  from k have 3: "3 * 95 < length (basic_page_texts quiet_backend letter_landscape (lit ''F'')
      (lit ''F'') fresh_world) \<longrightarrow>
       (\<forall>name. map_of special_chars (32 + int 95) = Some name \<longrightarrow>
            basic_page_texts quiet_backend letter_landscape (lit ''F'') (lit ''F'') fresh_world
              ! (3 * 95) = name)"
    by blast
  from k have 4: "2 * 1 < length (extended_page_texts quiet_backend letter_landscape (lit ''F'')
      (lit ''F'') fresh_world) \<longrightarrow>
         extended_page_texts quiet_backend letter_landscape (lit ''F'') (lit ''F'') fresh_world
           ! (2 * 1) = lit ''U+'' @ hex_digits 4 (256 + int 1)"
    by blast
  from k b have 5: "basic_page_texts quiet_backend letter_landscape (lit ''F'') (lit ''F'')
      fresh_world ! (3 * 0) = lit ''Space''
    \<and> basic_page_texts quiet_backend letter_landscape (lit ''F'') (lit ''F'')
      fresh_world ! (3 * 33) = lit ''A''
    \<and> basic_page_texts quiet_backend letter_landscape (lit ''F'') (lit ''F'')
      fresh_world ! (3 * 168) = lit ''U+00C8''"
    by blast
  show ?thesis
    using 1 2 3 4 5 d h by simp
qed

text \<open>
  Claim C9. On the basic page, as far as it is drawn, the second text of the cell of
  code point \<open>32 + i\<close> is the decimal numeral of the code and the third is \<open>x\<close> with the
  two upper-case hexadecimal digits of the code, which is at most 255. For code 65
  the two lines read \<open>65\<close> and \<open>x41\<close>. On the extended page a cell has a second text, the
  decimal numeral of its code, and no third: the page has at most two texts for each
  cell and none of them begins with \<open>x\<close>.
\<close>

theorem code_lines:
  "(\<forall>i. 3 * i + 1 < length (basic_page_texts be L font_id font_name w) \<longrightarrow>
       shows_code (32 + int i) (basic_page_texts be L font_id font_name w ! (3 * i + 1)))
   \<and> (\<forall>i. 3 * i + 2 < length (basic_page_texts be L font_id font_name w) \<longrightarrow>
       32 + int i \<le> 255
       \<and> basic_page_texts be L font_id font_name w ! (3 * i + 2)
           = lit ''x'' @ hex_digits 2 (32 + int i))
   \<and> ((\<exists>n. fst (draw_character_grid be L font_id font_name 32 255 w) = Inr n) \<longrightarrow>
         length (basic_page_texts be L font_id font_name w) = 3 * 224
         \<and> basic_page_texts be L font_id font_name w ! (3 * 33 + 1) = lit ''65''
         \<and> basic_page_texts be L font_id font_name w ! (3 * 33 + 2) = lit ''x41'')
   \<and> (\<forall>i. 2 * i + 1 < length (extended_page_texts be L font_id font_name w) \<longrightarrow>
         shows_code (256 + int i) (extended_page_texts be L font_id font_name w ! (2 * i + 1)))
   \<and> length (extended_page_texts be L font_id font_name w) \<le> 2 * 224
   \<and> (\<forall>t \<in> set (extended_page_texts be L font_id font_name w). hd t \<noteq> of_char CHR ''x'')"
proof (intro conjI allI impI ballI)
  fix i :: nat
  assume a: "3 * i + 1 < length (basic_page_texts be L font_id font_name w)"
  show "shows_code (32 + int i) (basic_page_texts be L font_id font_name w ! (3 * i + 1))"
    using basic_texts_nth(2) [OF a] by (simp add: shows_code_decimal_line)
next
  fix i :: nat
  assume a: "3 * i + 2 < length (basic_page_texts be L font_id font_name w)"
  note t = basic_texts_nth(3) [OF a]
  show "32 + int i \<le> 255" using t by simp
  then show "basic_page_texts be L font_id font_name w ! (3 * i + 2)
           = lit ''x'' @ hex_digits 2 (32 + int i)"
    using t by (simp add: hex_line_def format_X_2)
next
  assume "\<exists>n. fst (draw_character_grid be L font_id font_name 32 255 w) = Inr n"
  then obtain n where n: "fst (draw_character_grid be L font_id font_name 32 255 w) = Inr n"
    by blast
  show l: "length (basic_page_texts be L font_id font_name w) = 3 * 224"
    using length_basic_texts_all [OF n] by simp
  show "basic_page_texts be L font_id font_name w ! (3 * 33 + 1) = lit ''65''"
    using basic_texts_nth(2) [where i = 33 and be = be and L = L and font_id = font_id and font_name = font_name and w = w] l
    by (simp add: line_examples)
  show "basic_page_texts be L font_id font_name w ! (3 * 33 + 2) = lit ''x41''"
    using basic_texts_nth(3) [where i = 33 and be = be and L = L and font_id = font_id and font_name = font_name and w = w] l
    by (simp add: line_examples)
next
  fix i :: nat
  assume a: "2 * i + 1 < length (extended_page_texts be L font_id font_name w)"
  show "shows_code (256 + int i) (extended_page_texts be L font_id font_name w ! (2 * i + 1))"
    using extended_texts_nth(2) [OF a] by (simp add: shows_code_decimal_line)
next
  show "length (extended_page_texts be L font_id font_name w) \<le> 2 * 224"
    using length_extended_texts [of be L font_id font_name w] by simp
next
  fix t
  assume "t \<in> set (extended_page_texts be L font_id font_name w)"
  then obtain k where k: "k < length (extended_page_texts be L font_id font_name w)"
    "t = extended_page_texts be L font_id font_name w ! k"
    by (auto simp: in_set_conv_nth)
  show "hd t \<noteq> of_char CHR ''x''"
  proof (cases "even k")
    case True
    then obtain i where i: "k = 2 * i" by (auto elim: evenE)
    have "t = unicode_label (256 + int i)"
      using extended_texts_nth(1) [where i = i and be = be and L = L and font_id = font_id and font_name = font_name and w = w] k i by simp
    then show ?thesis
      by (simp add: unicode_label_def lit_def)
  next
    case False
    then obtain i where i: "k = 2 * i + 1" by (auto elim: oddE)
    have "shows_code (256 + int i) t"
      using extended_texts_nth(2) [where i = i and be = be and L = L and font_id = font_id and font_name = font_name and w = w] k i
      by (simp add: shows_code_decimal_line)
    then have "t \<noteq> []" "list_all (\<lambda>c. 48 \<le> c \<and> c \<le> 57) t"
      by (simp_all add: shows_code_def is_decimal_def)
    then show ?thesis
      by (cases t) simp_all
  qed
qed

theorem code_lines_witness:
  "basic_page_texts quiet_backend letter_landscape (lit ''F'') (lit ''F'') fresh_world ! 100
       = lit ''65''
   \<and> basic_page_texts quiet_backend letter_landscape (lit ''F'') (lit ''F'') fresh_world ! 101
       = lit ''x41''
   \<and> basic_page_texts quiet_backend letter_landscape (lit ''F'') (lit ''F'') fresh_world ! 671
       = lit ''x'' @ hex_digits 2 255
   \<and> shows_code 479
       (extended_page_texts quiet_backend letter_landscape (lit ''F'') (lit ''F'') fresh_world ! 447)"
proof -
  have b: "\<exists>n. fst (draw_character_grid quiet_backend letter_landscape (lit ''F'') (lit ''F'')
      32 255 fresh_world) = Inr n"
    using succeeds_character_grid [OF glyph_faults_only_quiet, of 32]
    by (simp add: succeeds_def)
  have "\<exists>n. fst (draw_extended_grid quiet_backend letter_landscape (lit ''F'') (lit ''F'')
      256 511 fresh_world) = Inr n"
    using succeeds_extended_grid [OF glyph_faults_only_quiet]
    by (simp add: succeeds_def)
  then obtain n where e: "fst (draw_extended_grid quiet_backend letter_landscape (lit ''F'')
      (lit ''F'') 256 511 fresh_world) = Inr n"
    by blast
  have 2: "length (extended_page_texts quiet_backend letter_landscape (lit ''F'')
      (lit ''F'') fresh_world) = 448"
    by (rule length_extended_texts_all [OF e])
  note k = code_lines [of quiet_backend letter_landscape "lit ''F''" "lit ''F''" fresh_world]
  from k b have 1: "length (basic_page_texts quiet_backend letter_landscape (lit ''F'') (lit ''F'')
      fresh_world) = 3 * 224
    \<and> basic_page_texts quiet_backend letter_landscape (lit ''F'') (lit ''F'')
      fresh_world ! (3 * 33 + 1) = lit ''65''
    \<and> basic_page_texts quiet_backend letter_landscape (lit ''F'') (lit ''F'')
      fresh_world ! (3 * 33 + 2) = lit ''x41''"
    by blast
  from k have 3: "3 * 223 + 2 < length (basic_page_texts quiet_backend letter_landscape (lit ''F'')
      (lit ''F'') fresh_world) \<longrightarrow>
       basic_page_texts quiet_backend letter_landscape (lit ''F'') (lit ''F'') fresh_world
           ! (3 * 223 + 2) = lit ''x'' @ hex_digits 2 (32 + int 223)"
    by blast
  from k have 4: "2 * 223 + 1 < length (extended_page_texts quiet_backend letter_landscape
      (lit ''F'') (lit ''F'') fresh_world) \<longrightarrow>
         shows_code (256 + int 223) (extended_page_texts quiet_backend letter_landscape (lit ''F'')
           (lit ''F'') fresh_world ! (2 * 223 + 1))"
    by blast
  show ?thesis
    using 1 2 3 4 by simp
qed

section \<open>The font locator and the script\<close>

lemma add_file_enter:
  "foldl (add_file os root_dir) d files =
     foldl enter d (map (\<lambda>file. (splitext_root file, os_join os [root_dir, file]))
       (filter is_font_file files))"
  by (induction files arbitrary: d) (simp_all add: add_file_def enter_def Let_def)

lemma foldl_foldl_concat: "foldl (\<lambda>d x. foldl g d (h x)) d xs = foldl g d (concat (map h xs))"
  by (induction xs arbitrary: d) simp_all

lemma scan_dir_enter: "scan_dir os d font_dir = foldl enter d (dir_candidates os font_dir)"
proof -
  have "(\<lambda>d entry. case entry of (root_dir, dirs, files) \<Rightarrow> foldl (add_file os root_dir) d files)
      = (\<lambda>d entry. foldl enter d (walk_candidates os entry))"
    by (auto simp: fun_eq_iff add_file_enter walk_candidates_def)
  then show ?thesis
    by (simp add: scan_dir_def dir_candidates_def foldl_foldl_concat)
qed

lemma scan_fonts_enter: "scan_fonts os font_dirs = foldl enter [] (font_candidates os font_dirs)"
proof -
  have "scan_dir os = (\<lambda>d font_dir. foldl enter d (dir_candidates os font_dir))"
    by (simp add: fun_eq_iff scan_dir_enter)
  then show ?thesis
    by (simp add: scan_fonts_def font_candidates_def foldl_foldl_concat)
qed

lemma map_of_snoc_None:
  "map_of (d @ [kv]) k = None \<longleftrightarrow> map_of d k = None \<and> k \<noteq> fst kv"
  by (cases kv) (auto simp: map_add_def split: option.split)

lemma foldl_enter:
  "foldl enter d xs = d @ keep_first (filter (\<lambda>e. map_of d (fst e) = None) xs)"
proof (induction xs arbitrary: d)
  case Nil
  show ?case by simp
next
  case (Cons kv xs)
  show ?case
  proof (cases "map_of d (fst kv) = None")
    case True
    have f: "filter (\<lambda>e. map_of (d @ [kv]) (fst e) = None) xs
        = filter (\<lambda>e. fst e \<noteq> fst kv) (filter (\<lambda>e. map_of d (fst e) = None) xs)"
      by (induction xs) (auto simp: map_of_snoc_None)
    have "foldl enter d (kv # xs) = foldl enter (d @ [kv]) xs"
      using True by (simp add: enter_def)
    also have "\<dots> = (d @ [kv]) @ keep_first (filter (\<lambda>e. map_of (d @ [kv]) (fst e) = None) xs)"
      by (rule Cons)
    also have "\<dots> = d @ kv # keep_first (filter (\<lambda>e. fst e \<noteq> fst kv)
        (filter (\<lambda>e. map_of d (fst e) = None) xs))"
      by (simp only: f append_assoc append_Cons append_Nil)
    also have "\<dots> = d @ keep_first (filter (\<lambda>e. map_of d (fst e) = None) (kv # xs))"
      using True by (simp only: filter.simps keep_first.simps if_True refl)
    finally show ?thesis .
  next
    case False
    have "foldl enter d (kv # xs) = foldl enter d xs"
      using False by (auto simp: enter_def)
    also have "\<dots> = d @ keep_first (filter (\<lambda>e. map_of d (fst e) = None) xs)"
      by (rule Cons)
    finally show ?thesis using False by auto
  qed
qed

lemma scan_fonts_keep_first: "scan_fonts os font_dirs = keep_first (font_candidates os font_dirs)"
  by (simp add: scan_fonts_enter foldl_enter)

lemma map_of_keep_first: "map_of (keep_first xs) = map_of xs"
proof (induction xs rule: keep_first.induct)
  case 1
  show ?case by simp
next
  case (2 kv rest)
  have "map_of (filter (\<lambda>e. fst e \<noteq> fst kv) rest) k = map_of rest k" if "k \<noteq> fst kv" for k
    using that by (induction rest) auto
  then show ?case
    using 2 by (cases kv) (auto simp: fun_eq_iff)
qed

lemma set_keep_first: "fst ` set (keep_first xs) = fst ` set xs"
proof (induction xs rule: keep_first.induct)
  case 1
  show ?case by simp
next
  case (2 kv rest)
  then show ?case by (auto simp: image_iff) 
qed

lemma distinct_keep_first: "distinct (map fst (keep_first xs))"
proof (induction xs rule: keep_first.induct)
  case 1
  show ?case by simp
next
  case (2 kv rest)
  have "fst kv \<notin> fst ` set (keep_first (filter (\<lambda>e. fst e \<noteq> fst kv) rest))"
    by (simp add: set_keep_first image_iff)
  then show ?case using 2 by simp
qed

lemma endswith_last4:
  assumes "length suffix = 4"
  shows "endswith s suffix \<longleftrightarrow> 4 \<le> length s \<and> drop (length s - 4) s = suffix"
  using assms by (auto simp: endswith_def)

lemma lower_drop: "lower (drop n s) = drop n (lower s)"
  by (simp add: lower_def drop_map)

lemma length_lower [simp]: "length (lower s) = length s"
  by (simp add: lower_def)

lemma is_font_file_iff:
  "is_font_file file \<longleftrightarrow>
     4 \<le> length file \<and> (lower (drop (length file - 4) file) = lit ''.ttf''
        \<or> lower (drop (length file - 4) file) = lit ''.otf'')"
  by (auto simp: is_font_file_def endswith_last4 lower_drop)

lemma list4: "length xs = Suc (Suc (Suc (Suc 0))) \<Longrightarrow> \<exists>a b c d. xs = [a, b, c, d]"
  by (auto simp: length_Suc_conv)

lemma last4:
  assumes "4 \<le> length s"
  obtains a b c d where "s = take (length s - 4) s @ [a, b, c, d]"
proof -
  have "length (drop (length s - 4) s) = Suc (Suc (Suc (Suc 0)))"
    using assms by simp
  then obtain a b c d where "drop (length s - 4) s = [a, b, c, d]"
    using list4 by blast
  then have "s = take (length s - 4) s @ [a, b, c, d]"
    by (metis append_take_drop_id)
  then show ?thesis by (rule that)
qed

lemma rfind_last4:
  assumes "a = 46" "b \<noteq> 46" "c \<noteq> 46" "d \<noteq> 46"
  shows "rfind 46 (pre @ [a, b, c, d]) = Some (length pre)"
  using assms by (simp add: rfind_def)

lemma lower_dot: "(if 65 \<le> c \<and> c \<le> 90 then c + 32 else c) = (46::nat) \<longleftrightarrow> c = 46"
  by auto

lemma font_file_root:
  assumes "is_font_file file"
  shows "splitext_root file =
     (if list_all (\<lambda>c. c = 46) (take (length file - 4) file) then file
      else take (length file - 4) file)"
proof -
  from assms have n: "4 \<le> length file"
    and l: "lower (drop (length file - 4) file) = lit ''.ttf''
        \<or> lower (drop (length file - 4) file) = lit ''.otf''"
    by (simp_all add: is_font_file_iff)
  obtain a b c d where f: "file = take (length file - 4) file @ [a, b, c, d]"
    using n by (rule last4)
  then have "drop (length file - 4) file = [a, b, c, d]"
    by (metis append_eq_conv_conj length_take min.absorb2 diff_le_self)
  with l have "a = 46 \<and> b \<noteq> 46 \<and> c \<noteq> 46 \<and> d \<noteq> 46"
    by (auto simp: lower_def lit_def split: if_splits)
  then have "rfind 46 (take (length file - 4) file @ [a, b, c, d]) = Some (length (take (length file - 4) file))"
    by (intro rfind_last4) simp_all
  then have "rfind 46 file = Some (length file - 4)"
    using f n by (metis length_take min.absorb2 diff_le_self)
  then show ?thesis
    by (simp add: splitext_root_def)
qed

lemma sorted_fonts_set: "set (sorted_fonts d) = fst ` set d"
  by (simp add: sorted_fonts_def)

text \<open>
  Claim C6, amended. The locator takes the files whose last four characters are, in
  lower case, \<open>.ttf\<close> or \<open>.otf\<close>; the name of such a file is the file name without these
  four characters, unless only periods come before them, in which case it is the whole
  file name; the dictionary holds, in the order of the scan, the first file found for
  each name; and the names are then gone through in ascending order of their code
  points, each once.
\<close>

theorem font_locator:
  "scan_fonts os font_dirs = keep_first (font_candidates os font_dirs)
   \<and> map_of (scan_fonts os font_dirs) = map_of (font_candidates os font_dirs)
   \<and> distinct (map fst (scan_fonts os font_dirs))
   \<and> sorted (sorted_fonts (scan_fonts os font_dirs))
   \<and> distinct (sorted_fonts (scan_fonts os font_dirs))
   \<and> set (sorted_fonts (scan_fonts os font_dirs)) = fst ` set (font_candidates os font_dirs)
   \<and> (is_font_file file \<longleftrightarrow>
        4 \<le> length file \<and> (lower (drop (length file - 4) file) = lit ''.ttf''
          \<or> lower (drop (length file - 4) file) = lit ''.otf''))
   \<and> (is_font_file file \<longrightarrow>
        splitext_root file =
          (if list_all (\<lambda>c. c = 46) (take (length file - 4) file) then file
           else take (length file - 4) file))"
proof (intro conjI impI)
  show "scan_fonts os font_dirs = keep_first (font_candidates os font_dirs)"
    by (rule scan_fonts_keep_first)
  show "map_of (scan_fonts os font_dirs) = map_of (font_candidates os font_dirs)"
    by (simp add: scan_fonts_keep_first map_of_keep_first)
  show d: "distinct (map fst (scan_fonts os font_dirs))"
    by (simp add: scan_fonts_keep_first distinct_keep_first)
  show "sorted (sorted_fonts (scan_fonts os font_dirs))"
    by (simp add: sorted_fonts_def)
  show "distinct (sorted_fonts (scan_fonts os font_dirs))"
    using d by (simp add: sorted_fonts_def)
  show "set (sorted_fonts (scan_fonts os font_dirs)) = fst ` set (font_candidates os font_dirs)"
    by (simp add: sorted_fonts_set scan_fonts_keep_first set_keep_first)
  show "is_font_file file \<longleftrightarrow>
        4 \<le> length file \<and> (lower (drop (length file - 4) file) = lit ''.ttf''
          \<or> lower (drop (length file - 4) file) = lit ''.otf'')"
    by (rule is_font_file_iff)
next
  assume "is_font_file file"
  then show "splitext_root file =
          (if list_all (\<lambda>c. c = 46) (take (length file - 4) file) then file
           else take (length file - 4) file)"
    by (rule font_file_root)
qed

lemma is_font_file_Foo: "is_font_file (lit ''Foo.TTF'')"
  by (simp add: is_font_file_def endswith_def lower_def lit_def)

theorem font_locator_witness:
  "is_font_file (lit ''Foo.TTF'') \<and> splitext_root (lit ''Foo.TTF'') = lit ''Foo''
   \<and> scan_fonts hidden_font_os [lit ''fonts''] = keep_first (font_candidates hidden_font_os [lit ''fonts''])"
  using font_locator [of hidden_font_os "[lit ''fonts'']" "lit ''Foo.TTF''"] is_font_file_Foo
  by (simp add: lit_def)

theorem font_locator_counterexample:
  "is_font_file (lit ''.ttf'') \<and> splitext_root (lit ''.ttf'') = lit ''.ttf''
   \<and> scan_fonts hidden_font_os [lit ''fonts'']
       = [(lit ''.ttf'', lit ''/fonts/.ttf''), (lit ''Foo'', lit ''/fonts/Foo.TTF'')]"
  by (simp add: is_font_file_def endswith_def lower_def lit_def splitext_root_def rfind_def
      scan_fonts_def scan_dir_def add_file_def hidden_font_os_def)

text \<open>
  Claim C7. When the scan finds no font, the process ends with status 1 and no call
  has been made on the drawing library: no canvas was created and nothing was saved.
  When the dependency check and the output directory raise no obstacle, the run ends
  in \<open>sys.exit(1)\<close> with the state untouched.
\<close>

theorem no_fonts_no_pdf:
  assumes "sorted_fonts (scan_fonts os (arcgis_font_dirs os)) = []"
  shows "exit_status (script os be L registered0) = 1
     \<and> canvas (final_world (script os be L registered0)) = []
     \<and> ((importable os \<or> pip_install os)
          \<and> (os_exists os (os_dirname os output_pdf)
               \<or> os_makedirs os (os_dirname os output_pdf) = None)
        \<longrightarrow> script os be L registered0
              = Exited 1 \<lparr>canvas = [], registered = registered0, console = [], page_count = 0\<rparr>)"
  using assms by (auto simp: script_def Let_def)

lemma no_arcgis_dirs: "scan_fonts hidden_font_os (arcgis_font_dirs hidden_font_os) = []"
  by (simp add: scan_fonts_def scan_dir_def arcgis_font_dirs_def hidden_font_os_def lit_def
      backslash_def)

theorem no_fonts_no_pdf_witness:
  "sorted_fonts (scan_fonts hidden_font_os (arcgis_font_dirs hidden_font_os)) = []
   \<and> script hidden_font_os quiet_backend letter_landscape [] = Exited 1 fresh_world
   \<and> exit_status (script hidden_font_os quiet_backend letter_landscape []) = 1"
proof -
  have a: "sorted_fonts (scan_fonts hidden_font_os (arcgis_font_dirs hidden_font_os)) = []"
    by (simp add: no_arcgis_dirs sorted_fonts_def)
  have b: "importable hidden_font_os" "os_makedirs hidden_font_os (os_dirname hidden_font_os output_pdf) = None"
    by (simp_all add: hidden_font_os_def)
  show ?thesis
    using no_fonts_no_pdf [OF a, of quiet_backend letter_landscape "[]"] a b
    by (simp add: fresh_world_def)
qed

section \<open>The pages of a run\<close>

lemma tripleI:
  assumes "\<And>w. P w \<Longrightarrow> (case fst (m w) of Inl e \<Rightarrow> E (snd (m w)) | Inr x \<Rightarrow> Q x (snd (m w)))"
  shows "triple P m Q E"
  using assms by (simp add: triple_def)

lemma tripleD:
  assumes "triple P m Q E" "P w"
  shows "case fst (m w) of Inl e \<Rightarrow> E (snd (m w)) | Inr x \<Rightarrow> Q x (snd (m w))"
  using assms by (simp add: triple_def)

lemma triple_ok: "(\<And>w. P w \<Longrightarrow> Q x w) \<Longrightarrow> triple P (ok x) Q E"
  by (simp add: triple_def ok_def)

lemma triple_lift:
  "(\<And>w x. P w \<Longrightarrow> r = Inr x \<Longrightarrow> Q x w) \<Longrightarrow> (\<And>w e. P w \<Longrightarrow> r = Inl e \<Longrightarrow> E w)
     \<Longrightarrow> triple P (lift r) Q E"
  by (simp add: triple_def lift_def split: sum.split)

lemma triple_and_then:
  assumes "triple P m Q1 E" "\<And>x. triple (Q1 x) (f x) Q E"
  shows "triple P (and_then m f) Q E"
proof (rule tripleI)
  fix w
  assume "P w"
  then have 1: "case fst (m w) of Inl e \<Rightarrow> E (snd (m w)) | Inr x \<Rightarrow> Q1 x (snd (m w))"
    by (rule tripleD [OF assms(1)])
  show "case fst (and_then m f w) of Inl e \<Rightarrow> E (snd (and_then m f w))
        | Inr x \<Rightarrow> Q x (snd (and_then m f w))"
  proof (cases "fst (m w)")
    case (Inl e)
    then show ?thesis using 1 by (simp add: and_then_run)
  next
    case (Inr x)
    then have q: "Q1 x (snd (m w))" using 1 by simp
    have e: "and_then m f w = f x (snd (m w))"
      using Inr by (simp add: and_then_run)
    show ?thesis
      unfolding e by (rule tripleD [OF assms(2) q])
  qed
qed

lemma triple_catch:
  assumes "triple P m Q E1" "\<And>e. triple E1 (h e) Q E"
  shows "triple P (catch m h) Q E"
proof (rule tripleI)
  fix w
  assume "P w"
  then have 1: "case fst (m w) of Inl e \<Rightarrow> E1 (snd (m w)) | Inr x \<Rightarrow> Q x (snd (m w))"
    by (rule tripleD [OF assms(1)])
  show "case fst (catch m h w) of Inl e \<Rightarrow> E (snd (catch m h w))
        | Inr x \<Rightarrow> Q x (snd (catch m h w))"
  proof (cases "fst (m w)")
    case (Inr x)
    then show ?thesis using 1 by (simp add: catch_run)
  next
    case (Inl e)
    then have q: "E1 (snd (m w))" using 1 by simp
    have c: "catch m h w = h e (snd (m w))"
      using Inl by (simp add: catch_run)
    show ?thesis
      unfolding c by (rule tripleD [OF assms(2) q])
  qed
qed

lemma triple_conseq:
  assumes "triple P m Q E" "\<And>w. P' w \<Longrightarrow> P w" "\<And>x w. Q x w \<Longrightarrow> Q' x w" "\<And>w. E w \<Longrightarrow> E' w"
  shows "triple P' m Q' E'"
proof (rule tripleI)
  fix w
  assume "P' w"
  then have "P w" by (rule assms(2))
  then have "case fst (m w) of Inl e \<Rightarrow> E (snd (m w)) | Inr x \<Rightarrow> Q x (snd (m w))"
    by (rule tripleD [OF assms(1)])
  then show "case fst (m w) of Inl e \<Rightarrow> E' (snd (m w)) | Inr x \<Rightarrow> Q' x (snd (m w))"
    using assms(3,4) by (cases "fst (m w)") simp_all
qed

lemma triple_does:
  assumes "does R m"
    and "\<And>w evs x. P w \<Longrightarrow> R (Inr x) evs \<Longrightarrow> Q x (w\<lparr>canvas := canvas w @ evs\<rparr>)"
    and "\<And>w evs e. P w \<Longrightarrow> R (Inl e) evs \<Longrightarrow> E (w\<lparr>canvas := canvas w @ evs\<rparr>)"
  shows "triple P m Q E"
proof (rule tripleI)
  fix w
  assume p: "P w"
  obtain evs where "snd (m w) = w\<lparr>canvas := canvas w @ evs\<rparr>" "R (fst (m w)) evs"
    using assms(1) by (rule doesD)
  then show "case fst (m w) of Inl e \<Rightarrow> E (snd (m w)) | Inr x \<Rightarrow> Q x (snd (m w))"
    using assms(2,3) p by (auto split: sum.split)
qed

lemma triple_emits:
  assumes "emits Qo m"
    and "\<And>w evs. P w \<Longrightarrow> list_all (\<lambda>ev. Qo (fst ev)) evs \<Longrightarrow> I (w\<lparr>canvas := canvas w @ evs\<rparr>)"
  shows "triple P m (\<lambda>x. I) I"
  using assms(1) unfolding emits_def by (rule triple_does) (simp_all add: assms(2))

lemma triple_state: "(\<And>w0. triple (\<lambda>w. P w \<and> w = w0) (f w0) Q E) \<Longrightarrow> triple P (\<lambda>w. f w w) Q E"
  by (simp add: triple_def)

lemma page_marks_append [simp]: "page_marks (a @ b) = page_marks a @ page_marks b"
  by (simp add: page_marks_def)

lemma page_marks_Nil [simp]: "page_marks [] = []"
  by (simp add: page_marks_def)

lemma page_marks_plain: "list_all (\<lambda>ev. plain (fst ev)) evs \<Longrightarrow> page_marks evs = []"
  by (induction evs) (auto simp: page_marks_def mark_of_def plain_def split: draw_op.split)

lemma alternating_Suc: "1 \<le> n \<Longrightarrow> alternating (Suc n) = alternating n @ [PageBreak, PageBegin]"
  by (cases n) simp_all

lemma pages_begun_alternating: "length (filter (\<lambda>m. m = PageBegin) (alternating n)) = n"
  by (induction n rule: alternating.induct) simp_all

lemma emits_lift_then:
  assumes "\<And>x. r = Inr x \<Longrightarrow> emits Q (f x)"
  shows "emits Q (and_then (lift r) f)"
proof (cases r)
  case (Inl e)
  have "and_then (lift (Inl e)) f = lift (Inl e)"
    by (rule ext) (simp add: and_then_run lift_def)
  then show ?thesis by (simp add: Inl emits_lift)
next
  case (Inr x)
  have "and_then (lift (Inr x)) f = f x"
    by (rule ext) (simp add: and_then_run lift_def)
  then show ?thesis using assms Inr by simp
qed

lemma emits_glyph:
  assumes "Q (SetFont font_id 20)" "Q (SetFont (lit ''Helvetica'') 8)"
    "\<And>r g b. Q (SetFillColorRGB r g b)" "\<And>x y s. Q (DrawCentredString x y s)"
  shows "emits Q (draw_glyph be L font_id x y code n)"
  unfolding draw_glyph_def
  by (intro emits_catch emits_and_then emits_calls emits_call emits_lift emits_ok)
    (simp_all add: assms font_size_char_def)

lemma emits_character_cell:
  assumes "\<And>r g b. Q (SetStrokeColorRGB r g b)" "\<And>x y w h. Q (Rect x y w h)"
    "Q (SetFont (lit ''Helvetica-Bold'') 6)" "Q (SetFont (lit ''Helvetica'') 6)"
    "Q (SetFont font_id 20)" "Q (SetFont (lit ''Helvetica'') 8)"
    "\<And>r g b. Q (SetFillColorRGB r g b)" "\<And>x y s. Q (DrawCentredString x y s)"
    "\<And>x y label. key_label code = Inr label \<Longrightarrow> Q (DrawString x y (truncate_label label))"
    "\<And>x y. Q (DrawString x y (decimal_line code))" "\<And>x y. Q (DrawString x y (hex_line code))"
  shows "emits Q (character_cell be L font_id start_code code n)"
  unfolding character_cell_def Let_def
  by (auto intro!: emits_ok emits_and_then emits_lift_then emits_calls emits_call emits_glyph
      simp: assms font_size_label_def)

lemma emits_extended_cell:
  assumes "\<And>r g b. Q (SetStrokeColorRGB r g b)" "\<And>x y w h. Q (Rect x y w h)"
    "Q (SetFont (lit ''Helvetica-Bold'') 6)" "Q (SetFont (lit ''Helvetica'') 6)"
    "Q (SetFont font_id 20)" "Q (SetFont (lit ''Helvetica'') 8)"
    "\<And>r g b. Q (SetFillColorRGB r g b)" "\<And>x y s. Q (DrawCentredString x y s)"
    "\<And>x y. Q (DrawString x y (unicode_label code))"
    "\<And>x y. Q (DrawString x y (decimal_line code))"
  shows "emits Q (extended_cell be L font_id start_code code n)"
  unfolding extended_cell_def Let_def
  by (auto intro!: emits_ok emits_and_then emits_calls emits_call emits_glyph
      simp: assms font_size_label_def)

lemma plain_simps [simp]:
  "plain (SetStrokeColorRGB r g b)" "plain (Rect x y w h)" "plain (SetFillColorRGB r g b)"
  "plain (DrawString x y s)" "plain (DrawCentredString x y s)" "plain (Line x y x' y')"
  "plain (NewCanvas path w h)" "plain Save" "k \<noteq> 14 \<Longrightarrow> plain (SetFont f k)"
  by (simp_all add: plain_def)

lemma emits_plain_character_grid:
  "emits plain (draw_character_grid be L font_id font_name start_code end_code)"
  unfolding draw_character_grid_def
  by (intro emits_for_loop emits_character_cell) simp_all

lemma emits_plain_extended_grid:
  "emits plain (draw_extended_grid be L font_id font_name start_code end_code)"
  unfolding draw_extended_grid_def
  by (intro emits_for_loop emits_extended_cell) simp_all

text \<open>A property of the state that looks at the page counter and the pages only.\<close>

lemma triple_plain:
  assumes "emits plain m"
    and "\<And>w evs. P w \<Longrightarrow> page_marks evs = [] \<Longrightarrow> I (w\<lparr>canvas := canvas w @ evs\<rparr>)"
  shows "triple P m (\<lambda>x. I) I"
  using assms(1) by (rule triple_emits) (simp add: assms(2) page_marks_plain)

lemma on_page_plain: "on_page w \<Longrightarrow> page_marks evs = [] \<Longrightarrow> on_page (w\<lparr>canvas := canvas w @ evs\<rparr>)"
  by (simp add: on_page_def)

lemma paged_plain: "paged w \<Longrightarrow> page_marks evs = [] \<Longrightarrow> paged (w\<lparr>canvas := canvas w @ evs\<rparr>)"
  by (simp add: paged_def)

lemma triple_plain_on_page: "emits plain m \<Longrightarrow> triple on_page m (\<lambda>x. on_page) on_page"
  by (rule triple_plain) (simp_all add: on_page_plain)

lemma triple_plain_paged: "emits plain m \<Longrightarrow> triple paged m (\<lambda>x. paged) paged"
  by (rule triple_plain) (simp_all add: paged_plain)

lemma on_page_paged: "on_page w \<Longrightarrow> paged w"
  by (auto simp: on_page_def paged_def)

lemma triple_begin_page:
  "triple ready (call be (SetFont (lit ''Helvetica-Bold'') 14)) (\<lambda>x. on_page) on_page"
proof (rule triple_does [where R = "calls_events [SetFont (lit ''Helvetica-Bold'') 14]"])
  show "does (calls_events [SetFont (lit ''Helvetica-Bold'') 14])
          (call be (SetFont (lit ''Helvetica-Bold'') 14))"
    by (rule does_call) (auto simp: calls_events_def Cons_eq_append_conv)
next
  fix w evs and x :: unit
  assume r: "ready w" and "calls_events [SetFont (lit ''Helvetica-Bold'') 14] (Inr x) evs"
  then have m: "page_marks evs = [PageBegin]"
    by (auto simp: calls_events_def page_marks_def mark_of_def)
  from r show "on_page (w\<lparr>canvas := canvas w @ evs\<rparr>)"
    unfolding ready_def on_page_def
  proof (elim disjE conjE exE)
    assume "page_count w = 1" "page_marks (canvas w) = []"
    then have "page_marks (canvas w @ evs) = alternating 1" by (simp add: m)
    then show "1 \<le> page_count (w\<lparr>canvas := canvas w @ evs\<rparr>)
        \<and> (\<exists>n\<ge>1. page_marks (canvas (w\<lparr>canvas := canvas w @ evs\<rparr>)) = alternating n)"
      using \<open>page_count w = 1\<close> by (auto intro: exI [of _ 1])
  next
    fix n
    assume "2 \<le> page_count w" "1 \<le> n" "page_marks (canvas w) = alternating n @ [PageBreak]"
    then have "page_marks (canvas w @ evs) = alternating (Suc n)"
      by (simp add: m alternating_Suc)
    then show "1 \<le> page_count (w\<lparr>canvas := canvas w @ evs\<rparr>)
        \<and> (\<exists>n\<ge>1. page_marks (canvas (w\<lparr>canvas := canvas w @ evs\<rparr>)) = alternating n)"
      using \<open>2 \<le> page_count w\<close> by (auto intro: exI [of _ "Suc n"])
  qed
next
  fix w evs e
  assume r: "ready w" and "calls_events [SetFont (lit ''Helvetica-Bold'') 14] (Inl e) evs"
  then have m: "page_marks evs = [PageBegin]"
    by (auto simp: calls_events_def page_marks_def mark_of_def Cons_eq_append_conv)
  from r show "on_page (w\<lparr>canvas := canvas w @ evs\<rparr>)"
    unfolding ready_def on_page_def
  proof (elim disjE conjE exE)
    assume "page_count w = 1" "page_marks (canvas w) = []"
    then have "page_marks (canvas w @ evs) = alternating 1" by (simp add: m)
    then show "1 \<le> page_count (w\<lparr>canvas := canvas w @ evs\<rparr>)
        \<and> (\<exists>n\<ge>1. page_marks (canvas (w\<lparr>canvas := canvas w @ evs\<rparr>)) = alternating n)"
      using \<open>page_count w = 1\<close> by (auto intro: exI [of _ 1])
  next
    fix n
    assume "2 \<le> page_count w" "1 \<le> n" "page_marks (canvas w) = alternating n @ [PageBreak]"
    then have "page_marks (canvas w @ evs) = alternating (Suc n)"
      by (simp add: m alternating_Suc)
    then show "1 \<le> page_count (w\<lparr>canvas := canvas w @ evs\<rparr>)
        \<and> (\<exists>n\<ge>1. page_marks (canvas (w\<lparr>canvas := canvas w @ evs\<rparr>)) = alternating n)"
      using \<open>2 \<le> page_count w\<close> by (auto intro: exI [of _ "Suc n"])
  qed
qed

lemma draw_page_header_split:
  "draw_page_header be L font_name page_num total_pages =
     and_then (call be (SetFont (lit ''Helvetica-Bold'') 14)) (\<lambda>_.
       header_rest be L font_name page_num total_pages)"
  by (rule ext) (simp add: draw_page_header_def header_rest_def and_then_run split: sum.split)

lemma emits_state:
  assumes "\<And>w0. emits Q (f w0)"
  shows "emits Q (\<lambda>w. f w w)"
  unfolding emits_def
proof (rule doesI)
  fix w
  have "does (\<lambda>r. list_all (\<lambda>ev. Q (fst ev))) (f w)"
    using assms by (simp add: emits_def)
  then obtain evs where "snd (f w w) = w\<lparr>canvas := canvas w @ evs\<rparr>" "list_all (\<lambda>ev. Q (fst ev)) evs"
    by (rule doesD)
  then show "\<exists>evs. snd (f w w) = w\<lparr>canvas := canvas w @ evs\<rparr> \<and> list_all (\<lambda>ev. Q (fst ev)) evs"
    by blast
qed

lemma emits_header_rest:
  assumes "\<And>x y. Q (DrawString x y (lit ''Font: '' @ font_name))" "Q (SetFont (lit ''Helvetica'') 8)"
    "\<And>x y. Q (DrawString x y (lit ''Page '' @ str_int page_num @ lit '' of '' @ str_int total_pages))"
    "\<And>x y t. Q (DrawString x y (lit ''Generated: '' @ t))" "\<And>x y x' y'. Q (Line x y x' y')"
  shows "emits Q (header_rest be L font_name page_num total_pages)"
  unfolding header_rest_def
proof (rule emits_and_then)
  show "emits Q (calls be [DrawString (margin L) (page_height L - 0.3 * inch L)
                          (lit ''Font: '' @ font_name),
                        SetFont (lit ''Helvetica'') 8,
                        DrawString (page_width L - 2 * inch L) (page_height L - 0.3 * inch L)
                          (lit ''Page '' @ str_int page_num @ lit '' of '' @ str_int total_pages)])"
    by (rule emits_calls) (simp add: assms)
next
  fix x :: unit
  have "emits Q (calls be [DrawString (margin L) (page_height L - 0.5 * inch L)
                      (lit ''Generated: '' @ now be (canvas w0)),
                    Line (margin L) (page_height L - 0.6 * inch L)
                      (page_width L - margin L) (page_height L - 0.6 * inch L)])" for w0 :: world
    by (rule emits_calls) (simp add: assms)
  then show "emits Q (\<lambda>w. calls be [DrawString (margin L) (page_height L - 0.5 * inch L)
                      (lit ''Generated: '' @ now be (canvas w)),
                    Line (margin L) (page_height L - 0.6 * inch L)
                      (page_width L - margin L) (page_height L - 0.6 * inch L)] w)"
    by (rule emits_state [where f = "\<lambda>w0. calls be [DrawString (margin L) (page_height L - 0.5 * inch L)
                      (lit ''Generated: '' @ now be (canvas w0)),
                    Line (margin L) (page_height L - 0.6 * inch L)
                      (page_width L - margin L) (page_height L - 0.6 * inch L)]"])
qed

lemma triple_header:
  "triple ready (draw_page_header be L font_name page_num total_pages) (\<lambda>x. on_page) on_page"
  unfolding draw_page_header_split
  by (intro triple_and_then [where ?Q1.0 = "\<lambda>x. on_page"] triple_begin_page
      triple_plain_on_page emits_header_rest) simp_all

lemma triple_register_paged: "triple paged (register_font be font_id font_path) (\<lambda>x. paged) paged"
  by (auto simp: triple_def register_font_def paged_def split: option.split)

lemma triple_print_paged: "triple paged (print line) (\<lambda>x. paged) paged"
  by (auto simp: triple_def print_def paged_def)

lemma triple_next_page_first: "triple paged next_page (\<lambda>x. counted) paged"
  by (auto simp: triple_def next_page_def paged_def counted_def)

lemma triple_next_page_second: "triple on_page next_page (\<lambda>x. broken) paged"
  by (auto simp: triple_def next_page_def on_page_def broken_def)

lemma triple_show_page: "triple broken (call be ShowPage) (\<lambda>x. ready) paged"
proof (rule triple_does [where R = "calls_events [ShowPage]"])
  show "does (calls_events [ShowPage]) (call be ShowPage)"
    by (rule does_call) (auto simp: calls_events_def Cons_eq_append_conv)
next
  fix w evs and x :: unit
  assume "broken w" "calls_events [ShowPage] (Inr x) evs"
  then show "ready (w\<lparr>canvas := canvas w @ evs\<rparr>)"
    by (auto simp: broken_def ready_def calls_events_def page_marks_def mark_of_def)
next
  fix w evs e
  assume "broken w" "calls_events [ShowPage] (Inl e) evs"
  then show "paged (w\<lparr>canvas := canvas w @ evs\<rparr>)"
    by (auto simp: broken_def paged_def calls_events_def page_marks_def mark_of_def
        Cons_eq_append_conv)
qed

lemma triple_first_break:
  "triple counted (\<lambda>w. if page_count w > 1 then call be ShowPage w else ok () w) (\<lambda>x. ready) paged"
proof (rule tripleI)
  fix w
  assume c: "counted w"
  show "case fst (if 1 < page_count w then call be ShowPage w else ok () w) of
          Inl e \<Rightarrow> paged (snd (if 1 < page_count w then call be ShowPage w else ok () w))
        | Inr x \<Rightarrow> ready (snd (if 1 < page_count w then call be ShowPage w else ok () w))"
  proof (cases "1 < page_count w")
    case True
    with c have "broken w" by (auto simp: counted_def broken_def)
    then have "case fst (call be ShowPage w) of Inl e \<Rightarrow> paged (snd (call be ShowPage w))
        | Inr x \<Rightarrow> ready (snd (call be ShowPage w))"
      by (rule tripleD [OF triple_show_page])
    then show ?thesis using True by simp
  next
    case False
    with c have "ready w" by (auto simp: counted_def ready_def)
    then show ?thesis using False by (simp add: ok_def)
  qed
qed

lemma triple_header_state:
  "triple ready (\<lambda>w. draw_page_header be L font_name (page_count w) total_pages w)
     (\<lambda>x. on_page) paged"
proof (rule tripleI)
  fix w
  assume "ready w"
  then have "case fst (draw_page_header be L font_name (page_count w) total_pages w) of
      Inl e \<Rightarrow> on_page (snd (draw_page_header be L font_name (page_count w) total_pages w))
    | Inr x \<Rightarrow> on_page (snd (draw_page_header be L font_name (page_count w) total_pages w))"
    by (rule tripleD [OF triple_header])
  then show "case fst (draw_page_header be L font_name (page_count w) total_pages w) of
      Inl e \<Rightarrow> paged (snd (draw_page_header be L font_name (page_count w) total_pages w))
    | Inr x \<Rightarrow> on_page (snd (draw_page_header be L font_name (page_count w) total_pages w))"
    by (auto split: sum.splits intro: on_page_paged)
qed

lemma triple_on_page_plain: "emits plain m \<Longrightarrow> triple on_page m (\<lambda>x. on_page) paged"
  by (rule triple_conseq [OF triple_plain_on_page]) (simp_all add: on_page_paged)

lemma triple_font_pages:
  "triple paged (font_pages be L total_fonts font_idx font_name font_path) (\<lambda>x. paged) paged"
  unfolding font_pages_def Let_def
  apply (rule triple_and_then [OF triple_register_paged])
  apply (rule triple_and_then [OF triple_print_paged])
  apply (rule triple_and_then [OF triple_next_page_first])
  apply (rule triple_and_then [OF triple_first_break])
  apply (rule triple_and_then [OF triple_header_state])
  apply (rule triple_and_then [where ?Q1.0 = "\<lambda>x. on_page"])
   apply (rule triple_on_page_plain, rule emits_calls, simp)
  apply (rule triple_and_then [where ?Q1.0 = "\<lambda>x. on_page"])
   apply (rule triple_on_page_plain, rule emits_plain_character_grid)
  apply (rule triple_and_then [OF triple_next_page_second])
  apply (rule triple_and_then [OF triple_show_page])
  apply (rule triple_and_then [OF triple_header_state])
  apply (rule triple_and_then [where ?Q1.0 = "\<lambda>x. on_page"])
   apply (rule triple_on_page_plain, rule emits_calls, simp)
  apply (rule triple_and_then [where ?Q1.0 = "\<lambda>x. on_page"])
   apply (rule triple_on_page_plain, rule emits_plain_extended_grid)
  apply (rule triple_ok)
  apply (erule on_page_paged)
  done

lemma triple_process_font:
  "triple paged (process_font be L font_dict total_fonts entry) (\<lambda>x. paged) paged"
  unfolding process_font_def
  by (cases entry)
    (auto intro!: triple_and_then [where ?Q1.0 = "\<lambda>x. paged"] triple_lift
      triple_catch [where ?E1.0 = paged] triple_font_pages triple_print_paged)

lemma triple_font_loop:
  "triple paged (font_loop be L font_dict total_fonts entries) (\<lambda>x. paged) paged"
  by (induction entries)
    (auto intro!: triple_ok triple_and_then [where ?Q1.0 = "\<lambda>x. paged"] triple_process_font)

lemma triple_write_catalog:
  "triple paged (write_catalog be L font_dict fonts) (\<lambda>x. paged) paged"
  unfolding write_catalog_def
  by (intro triple_and_then [where ?Q1.0 = "\<lambda>x. paged"] triple_font_loop triple_plain_paged
      emits_call) simp_all

lemma paged_alternating:
  assumes "paged w"
  shows "page_marks (canvas w) = alternating (pages_begun (canvas w))"
  using assms by (auto simp: paged_def pages_begun_def pages_begun_alternating)

lemma final_world_script:
  "final_world (script os be L registered0)
     = \<lparr>canvas = [], registered = registered0, console = [], page_count = 0\<rparr>
   \<or> final_world (script os be L registered0)
     = snd (write_catalog be L (scan_fonts os (arcgis_font_dirs os))
         (sorted_fonts (scan_fonts os (arcgis_font_dirs os)))
         \<lparr>canvas = [], registered = registered0, console = [], page_count = 0\<rparr>)"
  by (auto simp: script_def Let_def split: prod.split sum.split)

lemma paged_script: "paged (final_world (script os be L registered0))"
proof -
  let ?w0 = "\<lparr>canvas = [], registered = registered0, console = [], page_count = 0\<rparr>"
  have 0: "paged ?w0" by (simp add: paged_def)
  have "case fst (write_catalog be L d fonts ?w0) of
      Inl e \<Rightarrow> paged (snd (write_catalog be L d fonts ?w0))
    | Inr x \<Rightarrow> paged (snd (write_catalog be L d fonts ?w0))" for d fonts
    using 0 by (rule tripleD [OF triple_write_catalog])
  then have "paged (snd (write_catalog be L d fonts ?w0))" for d fonts
    by (cases "fst (write_catalog be L d fonts ?w0)") simp_all
  then show ?thesis
    using 0 final_world_script [of os be L registered0] by metis
qed

lemma triple_sure_plain:
  assumes "succeeds m" "emits plain m"
  shows "triple (at_page k) m (\<lambda>x. at_page k) never"
proof (rule tripleI)
  fix w
  assume a: "at_page k w"
  obtain x where x: "fst (m w) = Inr x"
    using assms(1) by (auto simp: succeeds_def)
  have "does (\<lambda>r. list_all (\<lambda>ev. plain (fst ev))) m"
    using assms(2) by (simp add: emits_def)
  then obtain evs where "snd (m w) = w\<lparr>canvas := canvas w @ evs\<rparr>" "list_all (\<lambda>ev. plain (fst ev)) evs"
    by (rule doesD)
  then have "at_page k (snd (m w))"
    using a by (simp add: at_page_def page_marks_plain)
  then show "case fst (m w) of Inl e \<Rightarrow> never (snd (m w)) | Inr x \<Rightarrow> at_page k (snd (m w))"
    using x by simp
qed

lemma sure_simps [simp]:
  "sure (SetStrokeColorRGB r g b)" "sure (Rect x y w h)" "sure (SetFillColorRGB r g b)"
  "sure (DrawString x y s)" "sure (Line x y x' y')" "sure (NewCanvas path w h)" "sure Save"
  "sure ShowPage" "k \<noteq> 20 \<Longrightarrow> sure (SetFont f k)"
  by (simp_all add: sure_def)

lemma triple_register_sure:
  assumes "\<And>font_id font_path. load_font be font_id font_path = None"
  shows "triple (at_page k) (register_font be font_id font_path) (\<lambda>x. at_page k) never"
  by (auto simp: triple_def register_font_def at_page_def assms)

lemma triple_print_sure: "triple (at_page k) (print line) (\<lambda>x. at_page k) never"
  by (auto simp: triple_def print_def at_page_def)

lemma triple_next_page_sure:
  "triple (at_page k) next_page
     (\<lambda>x w. page_count w = int k + 1 \<and> page_marks (canvas w) = alternating k) never"
  by (auto simp: triple_def next_page_def at_page_def)

lemma show_page_sure:
  assumes "glyph_faults_only be"
  shows "call be ShowPage w = (Inr (), w\<lparr>canvas := canvas w @ [(ShowPage, True)]\<rparr>)"
  using sure_returns [OF assms, of ShowPage "canvas w"] by (simp add: call_def)

lemma triple_first_break_sure:
  assumes "glyph_faults_only be"
  shows "triple (\<lambda>w. page_count w = int k + 1 \<and> page_marks (canvas w) = alternating k)
     (\<lambda>w. if page_count w > 1 then call be ShowPage w else ok () w) (\<lambda>x. to_page k) never"
  by (auto simp: triple_def to_page_def show_page_sure [OF assms] ok_def page_marks_def mark_of_def)

lemma triple_second_break_sure:
  assumes "glyph_faults_only be"
  shows "triple (\<lambda>w. page_count w = int (Suc k) + 1 \<and> page_marks (canvas w) = alternating (Suc k))
     (call be ShowPage) (\<lambda>x. to_page (Suc k)) never"
  by (auto simp: triple_def to_page_def show_page_sure [OF assms] page_marks_def mark_of_def)

lemma succeeds_state: "(\<And>w0. succeeds (f w0)) \<Longrightarrow> succeeds (\<lambda>w. f w w)"
  by (simp add: succeeds_def)

lemma succeeds_header_rest:
  assumes "glyph_faults_only be"
  shows "succeeds (header_rest be L font_name page_num total_pages)"
  unfolding header_rest_def
proof (rule succeeds_and_then)
  show "succeeds (calls be [DrawString (margin L) (page_height L - 0.3 * inch L)
                          (lit ''Font: '' @ font_name),
                        SetFont (lit ''Helvetica'') 8,
                        DrawString (page_width L - 2 * inch L) (page_height L - 0.3 * inch L)
                          (lit ''Page '' @ str_int page_num @ lit '' of '' @ str_int total_pages)])"
    by (rule succeeds_calls [OF assms]) simp
next
  fix x :: unit
  have "succeeds (calls be [DrawString (margin L) (page_height L - 0.5 * inch L)
                      (lit ''Generated: '' @ now be (canvas w0)),
                    Line (margin L) (page_height L - 0.6 * inch L)
                      (page_width L - margin L) (page_height L - 0.6 * inch L)])" for w0 :: world
    by (rule succeeds_calls [OF assms]) simp
  then show "succeeds (\<lambda>w. calls be [DrawString (margin L) (page_height L - 0.5 * inch L)
                      (lit ''Generated: '' @ now be (canvas w)),
                    Line (margin L) (page_height L - 0.6 * inch L)
                      (page_width L - margin L) (page_height L - 0.6 * inch L)] w)"
    by (rule succeeds_state [where f = "\<lambda>w0. calls be [DrawString (margin L) (page_height L - 0.5 * inch L)
                      (lit ''Generated: '' @ now be (canvas w0)),
                    Line (margin L) (page_height L - 0.6 * inch L)
                      (page_width L - margin L) (page_height L - 0.6 * inch L)]"])
qed

lemma triple_header_sure:
  assumes "glyph_faults_only be"
  shows "triple (to_page k) (\<lambda>w. draw_page_header be L font_name (page_count w) total_pages w)
     (\<lambda>x. at_page (Suc k)) never"
proof (rule tripleI)
  fix w
  assume t: "to_page k w"
  let ?op = "SetFont (lit ''Helvetica-Bold'') 14"
  let ?w1 = "w\<lparr>canvas := canvas w @ [(?op, True)]\<rparr>"
  have c: "call be ?op w = (Inr (), ?w1)"
    using sure_returns [OF assms, of ?op "canvas w"] by (simp add: call_def)
  have "page_marks (canvas ?w1) = alternating (Suc k)"
    using t by (cases k) (simp_all add: to_page_def page_marks_def mark_of_def)
  then have a: "at_page (Suc k) ?w1"
    using t by (simp add: at_page_def to_page_def)
  have "triple (at_page (Suc k)) (header_rest be L font_name (page_count w) total_pages)
      (\<lambda>x. at_page (Suc k)) never"
  proof (rule triple_sure_plain)
    show "emits plain (header_rest be L font_name (page_count w) total_pages)"
      by (rule emits_header_rest) simp_all
    show "succeeds (header_rest be L font_name (page_count w) total_pages)"
      by (rule succeeds_header_rest [OF assms])
  qed
  then have "case fst (header_rest be L font_name (page_count w) total_pages ?w1) of
      Inl e \<Rightarrow> never (snd (header_rest be L font_name (page_count w) total_pages ?w1))
    | Inr x \<Rightarrow> at_page (Suc k) (snd (header_rest be L font_name (page_count w) total_pages ?w1))"
    using a by (rule tripleD)
  moreover have "draw_page_header be L font_name (page_count w) total_pages w
      = header_rest be L font_name (page_count w) total_pages ?w1"
    by (simp add: draw_page_header_split and_then_run c)
  ultimately show "case fst (draw_page_header be L font_name (page_count w) total_pages w) of
      Inl e \<Rightarrow> never (snd (draw_page_header be L font_name (page_count w) total_pages w))
    | Inr x \<Rightarrow> at_page (Suc k) (snd (draw_page_header be L font_name (page_count w) total_pages w))"
    by (simp only:)
qed

lemma triple_next_page_second_sure:
  "triple (at_page (Suc k)) next_page
     (\<lambda>x w. page_count w = int (Suc k) + 1 \<and> page_marks (canvas w) = alternating (Suc k)) never"
  by (rule triple_next_page_sure)

lemma triple_font_pages_sure:
  assumes g: "glyph_faults_only be"
    and l: "\<And>font_id font_path. load_font be font_id font_path = None"
  shows "triple (at_page k) (font_pages be L total_fonts font_idx font_name font_path)
     (\<lambda>x. at_page (Suc (Suc k))) never"
  unfolding font_pages_def Let_def
  apply (rule triple_and_then [OF triple_register_sure [OF l]])
  apply (rule triple_and_then [OF triple_print_sure])
  apply (rule triple_and_then [OF triple_next_page_sure])
  apply (rule triple_and_then [OF triple_first_break_sure [OF g]])
  apply (rule triple_and_then [OF triple_header_sure [OF g]])
  apply (rule triple_and_then [where ?Q1.0 = "\<lambda>x. at_page (Suc k)"])
   apply (rule triple_sure_plain)
    apply (rule succeeds_calls [OF g], simp)
   apply (rule emits_calls, simp)
  apply (rule triple_and_then [where ?Q1.0 = "\<lambda>x. at_page (Suc k)"])
   apply (rule triple_sure_plain)
    apply (rule succeeds_character_grid [OF g], simp)
   apply (rule emits_plain_character_grid)
  apply (rule triple_and_then [OF triple_next_page_second_sure])
  apply (rule triple_and_then [OF triple_second_break_sure [OF g]])
  apply (rule triple_and_then [OF triple_header_sure [OF g]])
  apply (rule triple_and_then [where ?Q1.0 = "\<lambda>x. at_page (Suc (Suc k))"])
   apply (rule triple_sure_plain)
    apply (rule succeeds_calls [OF g], simp)
   apply (rule emits_calls, simp)
  apply (rule triple_and_then [where ?Q1.0 = "\<lambda>x. at_page (Suc (Suc k))"])
   apply (rule triple_sure_plain)
    apply (rule succeeds_extended_grid [OF g])
   apply (rule emits_plain_extended_grid)
  apply (rule triple_ok)
  apply assumption
  done

lemma triple_process_font_sure:
  assumes g: "glyph_faults_only be"
    and l: "\<And>font_id font_path. load_font be font_id font_path = None"
    and d: "map_of font_dict (snd entry) \<noteq> None"
  shows "triple (at_page k) (process_font be L font_dict total_fonts entry)
     (\<lambda>x. at_page (Suc (Suc k))) never"
proof -
  obtain font_idx font_name where e: "entry = (font_idx, font_name)"
    by (cases entry)
  with d obtain font_path where p: "map_of font_dict font_name = Some font_path"
    by auto
  have "triple (at_page k)
      (catch (font_pages be L total_fonts font_idx font_name font_path)
        (\<lambda>e. print (lit ''  ERROR processing '' @ font_name @ lit '': '' @ str_of_error e)))
      (\<lambda>x. at_page (Suc (Suc k))) never"
    by (rule triple_catch [OF triple_font_pages_sure [OF g l]]) (simp add: triple_def never_def)
  moreover have "process_font be L font_dict total_fonts entry
      = catch (font_pages be L total_fonts font_idx font_name font_path)
        (\<lambda>e. print (lit ''  ERROR processing '' @ font_name @ lit '': '' @ str_of_error e))"
    by (rule ext) (simp add: process_font_def e p and_then_run lift_def)
  ultimately show ?thesis by simp
qed

lemma triple_font_loop_sure:
  assumes g: "glyph_faults_only be"
    and l: "\<And>font_id font_path. load_font be font_id font_path = None"
    and d: "\<And>entry. entry \<in> set entries \<Longrightarrow> map_of font_dict (snd entry) \<noteq> None"
  shows "triple (at_page k) (font_loop be L font_dict total_fonts entries)
     (\<lambda>x. at_page (k + 2 * length entries)) never"
  using d
proof (induction entries arbitrary: k)
  case Nil
  show ?case by (simp add: triple_ok)
next
  case (Cons entry entries)
  have 1: "triple (at_page k) (process_font be L font_dict total_fonts entry)
     (\<lambda>x. at_page (Suc (Suc k))) never"
    by (rule triple_process_font_sure [OF g l]) (simp add: Cons.prems)
  have 2: "triple (at_page (Suc (Suc k))) (font_loop be L font_dict total_fonts entries)
     (\<lambda>x. at_page (Suc (Suc k) + 2 * length entries)) never"
    by (rule Cons.IH) (simp add: Cons.prems)
  show ?case
    unfolding font_loop.simps
    by (rule triple_and_then [OF 1]) (use 2 in simp)
qed

lemma py_enumerate_names: "entry \<in> set (py_enumerate fonts) \<Longrightarrow> snd entry \<in> set fonts"
  by (cases entry) (auto simp: py_enumerate_def dest: set_zip_rightD)

lemma length_py_enumerate: "length (py_enumerate fonts) = length fonts"
  by (simp add: py_enumerate_def py_range_def)

lemma sorted_fonts_in_dict: "name \<in> set (sorted_fonts font_dict) \<Longrightarrow> map_of font_dict name \<noteq> None"
  by (simp add: sorted_fonts_def map_of_eq_None_iff)

lemma triple_write_catalog_sure:
  assumes g: "glyph_faults_only be"
    and l: "\<And>font_id font_path. load_font be font_id font_path = None"
  shows "triple (at_page 0) (write_catalog be L font_dict (sorted_fonts font_dict))
     (\<lambda>x. at_page (2 * length (sorted_fonts font_dict))) never"
  unfolding write_catalog_def
proof (rule triple_and_then [where ?Q1.0 = "\<lambda>x. at_page 0"])
  show "triple (at_page 0)
      (call be (NewCanvas output_pdf (page_width L) (page_height L))) (\<lambda>x. at_page 0) never"
    by (intro triple_sure_plain succeeds_call [OF g] emits_call) simp_all
next
  fix x :: unit
  have "triple (at_page 0)
      (font_loop be L font_dict (int (length (sorted_fonts font_dict)))
        (py_enumerate (sorted_fonts font_dict)))
      (\<lambda>x. at_page (0 + 2 * length (py_enumerate (sorted_fonts font_dict)))) never"
    by (rule triple_font_loop_sure [OF g l])
      (auto dest!: py_enumerate_names sorted_fonts_in_dict)
  then have 1: "triple (at_page 0)
      (font_loop be L font_dict (int (length (sorted_fonts font_dict)))
        (py_enumerate (sorted_fonts font_dict)))
      (\<lambda>x. at_page (2 * length (sorted_fonts font_dict))) never"
    by (simp add: length_py_enumerate)
  show "triple (at_page 0)
      (and_then (font_loop be L font_dict (int (length (sorted_fonts font_dict)))
          (py_enumerate (sorted_fonts font_dict))) (\<lambda>_. call be Save))
      (\<lambda>x. at_page (2 * length (sorted_fonts font_dict))) never"
    by (rule triple_and_then [OF 1])
      (intro triple_sure_plain succeeds_call [OF g] emits_call; simp)
qed

lemma script_completes:
  assumes g: "glyph_faults_only be"
    and l: "\<And>font_id font_path. load_font be font_id font_path = None"
    and i: "importable os \<or> pip_install os"
    and m: "os_exists os (os_dirname os output_pdf) \<or> os_makedirs os (os_dirname os output_pdf) = None"
    and f: "sorted_fonts (scan_fonts os (arcgis_font_dirs os)) \<noteq> []"
  shows "\<exists>w. script os be L registered0 = Completed w
     \<and> at_page (2 * length (sorted_fonts (scan_fonts os (arcgis_font_dirs os)))) w"
proof -
  let ?w0 = "\<lparr>canvas = [], registered = registered0, console = [], page_count = 0\<rparr>"
  let ?d = "scan_fonts os (arcgis_font_dirs os)"
  have "at_page 0 ?w0" by (simp add: at_page_def)
  then have "case fst (write_catalog be L ?d (sorted_fonts ?d) ?w0) of
      Inl e \<Rightarrow> never (snd (write_catalog be L ?d (sorted_fonts ?d) ?w0))
    | Inr x \<Rightarrow> at_page (2 * length (sorted_fonts ?d)) (snd (write_catalog be L ?d (sorted_fonts ?d) ?w0))"
    by (rule tripleD [OF triple_write_catalog_sure [OF g l]])
  then obtain x where "fst (write_catalog be L ?d (sorted_fonts ?d) ?w0) = Inr x"
    "at_page (2 * length (sorted_fonts ?d)) (snd (write_catalog be L ?d (sorted_fonts ?d) ?w0))"
    by (cases "fst (write_catalog be L ?d (sorted_fonts ?d) ?w0)") (simp_all add: never_def)
  then show ?thesis
    using i m f by (auto simp: script_def Let_def split: prod.split sum.split)
qed

lemma one_font_scan:
  "scan_fonts one_font_os (arcgis_font_dirs one_font_os)
     = [(lit ''Esri'', backslash @ lit ''C:'' @ backslash @ lit ''Program Files'' @ backslash
         @ lit ''ArcGIS'' @ backslash @ lit ''Pro'' @ backslash @ lit ''Resources''
         @ backslash @ lit ''Fonts'' @ backslash @ lit ''Esri.ttf'')]"
  by (simp add: scan_fonts_def scan_dir_def add_file_def arcgis_font_dirs_def one_font_os_def
      is_font_file_def endswith_def lower_def splitext_root_def rfind_def lit_def backslash_def)

text \<open>
  Claim C4. On the canvas a run leaves, however it ends, the pages begun and the page
  breaks made alternate, beginning and ending with a page: the first page has no break
  before it, and every other page has exactly one break between it and the page before.
  When nothing but the drawing of glyphs fails and \<open>F\<close> fonts are found, the run
  completes with \<open>2 * F\<close> pages, the second page of the first font among them.
\<close>

theorem page_breaks:
  "page_marks (canvas (final_world (script os be L registered0)))
     = alternating (pages_begun (canvas (final_world (script os be L registered0))))
   \<and> (glyph_faults_only be \<and> (\<forall>font_id font_path. load_font be font_id font_path = None)
        \<and> (importable os \<or> pip_install os)
        \<and> (os_exists os (os_dirname os output_pdf)
             \<or> os_makedirs os (os_dirname os output_pdf) = None)
        \<and> sorted_fonts (scan_fonts os (arcgis_font_dirs os)) \<noteq> []
      \<longrightarrow> (\<exists>w. script os be L registered0 = Completed w
             \<and> page_count w = 2 * int (length (sorted_fonts (scan_fonts os (arcgis_font_dirs os))))
             \<and> page_marks (canvas w)
                 = alternating (2 * length (sorted_fonts (scan_fonts os (arcgis_font_dirs os))))))"
proof (intro conjI impI)
  show "page_marks (canvas (final_world (script os be L registered0)))
     = alternating (pages_begun (canvas (final_world (script os be L registered0))))"
    by (rule paged_alternating [OF paged_script])
next
  assume a: "glyph_faults_only be \<and> (\<forall>font_id font_path. load_font be font_id font_path = None)
        \<and> (importable os \<or> pip_install os)
        \<and> (os_exists os (os_dirname os output_pdf)
             \<or> os_makedirs os (os_dirname os output_pdf) = None)
        \<and> sorted_fonts (scan_fonts os (arcgis_font_dirs os)) \<noteq> []"
  then have "\<exists>w. script os be L registered0 = Completed w
     \<and> at_page (2 * length (sorted_fonts (scan_fonts os (arcgis_font_dirs os)))) w"
    by (intro script_completes) simp_all
  then show "\<exists>w. script os be L registered0 = Completed w
             \<and> page_count w = 2 * int (length (sorted_fonts (scan_fonts os (arcgis_font_dirs os))))
             \<and> page_marks (canvas w)
                 = alternating (2 * length (sorted_fonts (scan_fonts os (arcgis_font_dirs os))))"
    by (auto simp: at_page_def)
qed

theorem page_breaks_witness:
  "\<exists>w. script one_font_os quiet_backend letter_landscape [] = Completed w
     \<and> page_count w = 2 \<and> page_marks (canvas w) = [PageBegin, PageBreak, PageBegin]"
proof -
  have f: "sorted_fonts (scan_fonts one_font_os (arcgis_font_dirs one_font_os)) = [lit ''Esri'']"
    by (simp add: one_font_scan sorted_fonts_def)
  have b: "\<forall>font_id font_path. load_font quiet_backend font_id font_path = None"
    by (simp add: quiet_backend_def)
  have o: "importable one_font_os"
    "os_makedirs one_font_os (os_dirname one_font_os output_pdf) = None"
    by (simp_all add: one_font_os_def)
  have n: "alternating 2 = [PageBegin, PageBreak, PageBegin]"
    by (simp add: numeral_2_eq_2)
  show ?thesis
    using page_breaks [of one_font_os quiet_backend letter_landscape "[]"]
      glyph_faults_only_quiet b o
    by (simp add: f n)
qed

section \<open>Failures of a font\<close>

lemma shows_total_simps [simp]:
  "shows_total T (SetStrokeColorRGB r g b)" "shows_total T (Rect x y w h)"
  "shows_total T (SetFillColorRGB r g b)" "shows_total T (SetFont f k)"
  "shows_total T (DrawCentredString x y s)" "shows_total T (Line x y x' y')"
  "shows_total T (NewCanvas path w h)" "shows_total T Save" "shows_total T ShowPage"
  by (simp_all add: shows_total_def)

lemma shows_total_other: "take 5 s \<noteq> lit ''Page '' \<Longrightarrow> shows_total T (DrawString x y s)"
  by (simp add: shows_total_def)

lemma shows_total_page: "shows_total T (DrawString x y (lit ''Page '' @ str_int k @ lit '' of '' @ str_int T))"
  by (auto simp: shows_total_def)

lemma not_page_hd: "s \<noteq> [] \<Longrightarrow> hd s \<noteq> 80 \<Longrightarrow> take 5 s \<noteq> lit ''Page ''"
  by (cases s) (auto simp: lit_def)

lemma not_page_short: "length s < 5 \<Longrightarrow> take 5 s \<noteq> lit ''Page ''"
  by (auto simp: lit_def dest: arg_cong [where f = length])

lemma special_not_page: "map_of special_chars code = Some name \<Longrightarrow> take 5 name \<noteq> lit ''Page ''"
  by (auto simp: special_chars_def lit_def split: if_splits)

lemma key_label_not_page:
  assumes "0 \<le> code" "code < 65536" "key_label code = Inr label"
  shows "take 5 (truncate_label label) \<noteq> lit ''Page ''"
proof -
  have t: "truncate_label label = label"
    using assms by (intro truncate_short key_label_length)
  show ?thesis
  proof (cases "map_of special_chars code")
    case (Some name)
    then have "label = name" using assms by (simp add: key_label_value)
    then show ?thesis using Some t by (simp add: special_not_page)
  next
    case None
    then have "label = [nat code] \<or> label = lit ''U+'' @ hex_digits 4 code"
      using assms by (auto simp: key_label_value split: if_splits)
    then show ?thesis
      unfolding t by (auto simp: lit_def)
  qed
qed

lemma decimal_not_page: "is_decimal s \<Longrightarrow> take 5 s \<noteq> lit ''Page ''"
  by (cases s) (auto simp: is_decimal_def lit_def)

lemma decimal_line_not_page: "0 \<le> code \<Longrightarrow> take 5 (decimal_line code) \<noteq> lit ''Page ''"
  by (simp add: decimal_line_def str_int_def decimal_not_page is_decimal_digits)

lemma hex_line_not_page: "take 5 (hex_line code) \<noteq> lit ''Page ''"
  by (simp add: hex_line_def lit_def)

lemma unicode_label_not_page: "take 5 (unicode_label code) \<noteq> lit ''Page ''"
  by (simp add: unicode_label_def lit_def)

lemma emits_totals_character_grid:
  "emits (shows_total T) (draw_character_grid be L font_id font_name 32 255)"
  unfolding draw_character_grid_def
proof (rule emits_for_loop)
  fix code a
  assume "code \<in> set (page_codes 32 255)"
  then have c: "0 \<le> code" "code < 65536"
    by (simp_all add: page_codes_basic)
  show "emits (shows_total T) (character_cell be L font_id 32 code a)"
    by (rule emits_character_cell)
      (simp_all add: shows_total_other key_label_not_page [OF c] decimal_line_not_page [OF c(1)]
        hex_line_not_page)
qed

lemma emits_totals_extended_grid:
  "emits (shows_total T) (draw_extended_grid be L font_id font_name 256 511)"
  unfolding draw_extended_grid_def
proof (rule emits_for_loop)
  fix code a
  assume "code \<in> set (page_codes 256 511)"
  then have c: "0 \<le> code"
    by (simp add: page_codes_extended)
  show "emits (shows_total T) (extended_cell be L font_id 256 code a)"
    by (rule emits_extended_cell)
      (simp_all add: shows_total_other unicode_label_not_page decimal_line_not_page [OF c])
qed

lemma emits_totals_header:
  "emits (shows_total T) (draw_page_header be L font_name page_num T)"
proof -
  have f: "take 5 (lit ''Font: '' @ font_name) \<noteq> lit ''Page ''"
    by (simp add: lit_def)
  have g: "take 5 (lit ''Generated: '' @ t) \<noteq> lit ''Page ''" for t
    by (simp add: lit_def)
  note h = shows_total_other [OF f] shows_total_other [OF g] shows_total_page
  show ?thesis
    unfolding draw_page_header_split
    by (intro emits_and_then emits_call emits_header_rest) (simp_all add: h)
qed

lemma triple_totals_emits:
  "emits (shows_total T) m \<Longrightarrow> triple (totals T) m (\<lambda>x. totals T) (totals T)"
  by (erule triple_emits) (simp add: totals_def)

lemma triple_totals_register:
  "triple (totals T) (register_font be font_id font_path) (\<lambda>x. totals T) (totals T)"
  by (auto simp: triple_def register_font_def totals_def split: option.split)

lemma triple_totals_print: "triple (totals T) (print line) (\<lambda>x. totals T) (totals T)"
  by (auto simp: triple_def print_def totals_def)

lemma triple_totals_next_page: "triple (totals T) next_page (\<lambda>x. totals T) (totals T)"
  by (auto simp: triple_def next_page_def totals_def)

lemma triple_totals_break:
  "triple (totals T) (\<lambda>w. if page_count w > 1 then call be ShowPage w else ok () w)
     (\<lambda>x. totals T) (totals T)"
proof (rule tripleI)
  fix w
  assume t: "totals T w"
  have "case fst (call be ShowPage w) of Inl e \<Rightarrow> totals T (snd (call be ShowPage w))
      | Inr x \<Rightarrow> totals T (snd (call be ShowPage w))"
    using t by (intro tripleD [OF triple_totals_emits] emits_call) simp_all
  then show "case fst (if 1 < page_count w then call be ShowPage w else ok () w) of
          Inl e \<Rightarrow> totals T (snd (if 1 < page_count w then call be ShowPage w else ok () w))
        | Inr x \<Rightarrow> totals T (snd (if 1 < page_count w then call be ShowPage w else ok () w))"
    using t by (simp add: ok_def)
qed

lemma triple_totals_header:
  "triple (totals T) (\<lambda>w. draw_page_header be L font_name (page_count w) T w)
     (\<lambda>x. totals T) (totals T)"
proof (rule tripleI)
  fix w
  assume "totals T w"
  then show "case fst (draw_page_header be L font_name (page_count w) T w) of
      Inl e \<Rightarrow> totals T (snd (draw_page_header be L font_name (page_count w) T w))
    | Inr x \<Rightarrow> totals T (snd (draw_page_header be L font_name (page_count w) T w))"
    by (rule tripleD [OF triple_totals_emits [OF emits_totals_header]])
qed

lemma legend_not_page:
  "take 5 (lit ''Each cell shows: Key name (top), Decimal code, Hex code, Symbol (center)'')
     \<noteq> lit ''Page ''"
  "take 5 (lit ''Extended Unicode (256-511) - Each cell shows: Unicode ID (top), Decimal code, Symbol (center)'')
     \<noteq> lit ''Page ''"
  by (simp_all add: lit_def)

lemma triple_totals_font_pages:
  "triple (totals (total_fonts * 2))
     (font_pages be L total_fonts font_idx font_name font_path)
     (\<lambda>x. totals (total_fonts * 2)) (totals (total_fonts * 2))"
  unfolding font_pages_def Let_def
  apply (rule triple_and_then [OF triple_totals_register])
  apply (rule triple_and_then [OF triple_totals_print])
  apply (rule triple_and_then [OF triple_totals_next_page])
  apply (rule triple_and_then [OF triple_totals_break])
  apply (rule triple_and_then [OF triple_totals_header])
  apply (rule triple_and_then [where ?Q1.0 = "\<lambda>x. totals (total_fonts * 2)"])
   apply (rule triple_totals_emits, rule emits_calls)
   apply (simp add: shows_total_other [OF legend_not_page(1)])
  apply (rule triple_and_then [where ?Q1.0 = "\<lambda>x. totals (total_fonts * 2)"])
   apply (rule triple_totals_emits, rule emits_totals_character_grid)
  apply (rule triple_and_then [OF triple_totals_next_page])
  apply (rule triple_and_then [where ?Q1.0 = "\<lambda>x. totals (total_fonts * 2)"])
   apply (rule triple_totals_emits, rule emits_call, simp)
  apply (rule triple_and_then [OF triple_totals_header])
  apply (rule triple_and_then [where ?Q1.0 = "\<lambda>x. totals (total_fonts * 2)"])
   apply (rule triple_totals_emits, rule emits_calls)
   apply (simp add: shows_total_other [OF legend_not_page(2)])
  apply (rule triple_and_then [where ?Q1.0 = "\<lambda>x. totals (total_fonts * 2)"])
   apply (rule triple_totals_emits, rule emits_totals_extended_grid)
  apply (rule triple_ok)
  apply assumption
  done

lemma triple_totals_process_font:
  "triple (totals (total_fonts * 2)) (process_font be L font_dict total_fonts entry)
     (\<lambda>x. totals (total_fonts * 2)) (totals (total_fonts * 2))"
  unfolding process_font_def
  by (cases entry)
    (auto intro!: triple_and_then [where ?Q1.0 = "\<lambda>x. totals (total_fonts * 2)"] triple_lift
      triple_catch [where ?E1.0 = "totals (total_fonts * 2)"] triple_totals_font_pages
      triple_totals_print)

lemma triple_totals_font_loop:
  "triple (totals (total_fonts * 2)) (font_loop be L font_dict total_fonts entries)
     (\<lambda>x. totals (total_fonts * 2)) (totals (total_fonts * 2))"
  by (induction entries)
    (auto intro!: triple_ok triple_and_then [where ?Q1.0 = "\<lambda>x. totals (total_fonts * 2)"]
      triple_totals_process_font)

lemma triple_totals_write_catalog:
  "triple (totals (int (length fonts) * 2)) (write_catalog be L font_dict fonts)
     (\<lambda>x. totals (int (length fonts) * 2)) (totals (int (length fonts) * 2))"
  unfolding write_catalog_def
  by (intro triple_and_then [where ?Q1.0 = "\<lambda>x. totals (int (length fonts) * 2)"]
      triple_totals_font_loop triple_totals_emits emits_call) simp_all

lemma totals_script:
  "totals (int (length (sorted_fonts (scan_fonts os (arcgis_font_dirs os)))) * 2)
     (final_world (script os be L registered0))"
proof -
  let ?w0 = "\<lparr>canvas = [], registered = registered0, console = [], page_count = 0\<rparr>"
  let ?d = "scan_fonts os (arcgis_font_dirs os)"
  let ?T = "int (length (sorted_fonts ?d)) * 2"
  have 0: "totals ?T ?w0" by (simp add: totals_def)
  have "case fst (write_catalog be L ?d (sorted_fonts ?d) ?w0) of
      Inl e \<Rightarrow> totals ?T (snd (write_catalog be L ?d (sorted_fonts ?d) ?w0))
    | Inr x \<Rightarrow> totals ?T (snd (write_catalog be L ?d (sorted_fonts ?d) ?w0))"
    using 0 by (rule tripleD [OF triple_totals_write_catalog])
  then have "totals ?T (snd (write_catalog be L ?d (sorted_fonts ?d) ?w0))"
    by (cases "fst (write_catalog be L ?d (sorted_fonts ?d) ?w0)") simp_all
  then show ?thesis
    using 0 final_world_script [of os be L registered0] by metis
qed

lemma process_font_returns:
  assumes "map_of font_dict font_name = Some font_path"
  shows "process_font be L font_dict total_fonts (font_idx, font_name) w
     = (case fst (font_pages be L total_fonts font_idx font_name font_path w) of
          Inl e \<Rightarrow> (Inr (), (snd (font_pages be L total_fonts font_idx font_name font_path w))
                      \<lparr>console := console (snd (font_pages be L total_fonts font_idx font_name font_path w))
                         @ [lit ''  ERROR processing '' @ font_name @ lit '': '' @ str_of_error e]\<rparr>)
        | Inr x \<Rightarrow> (Inr (), snd (font_pages be L total_fonts font_idx font_name font_path w)))"
  using assms
  by (simp add: process_font_def and_then_run catch_run lift_def print_def split: sum.split)

lemma font_pages_load_fails:
  assumes "font_id_of font_name \<notin> set (registered w)"
    "load_font be (font_id_of font_name) font_path = Some e"
  shows "font_pages be L total_fonts font_idx font_name font_path w = (Inl e, w)"
  using assms by (simp add: font_pages_def Let_def and_then_run register_font_def)

lemma font_loop_returns:
  assumes "\<And>entry. entry \<in> set entries \<Longrightarrow> map_of font_dict (snd entry) \<noteq> None"
  shows "fst (font_loop be L font_dict total_fonts entries w) = Inr ()"
  using assms
proof (induction entries arbitrary: w)
  case Nil
  show ?case by (simp add: ok_def)
next
  case (Cons entry entries)
  obtain font_idx font_name where e: "entry = (font_idx, font_name)"
    by (cases entry)
  then obtain font_path where p: "map_of font_dict font_name = Some font_path"
    using Cons.prems [of entry] by auto
  have "fst (process_font be L font_dict total_fonts entry w) = Inr ()"
    unfolding e by (simp add: process_font_returns [OF p] split: sum.split)
  then show ?case
    by (simp add: and_then_run Cons.IH Cons.prems)
qed

lemma triple_said_emits:
  assumes "emits Q m" "\<And>w. said c w \<Longrightarrow> E w"
  shows "triple (said c) m (\<lambda>x. said c) E"
proof (rule triple_conseq [where P = "said c" and Q = "\<lambda>x. said c" and E = "said c"])
  show "triple (said c) m (\<lambda>x. said c) (said c)"
    using assms(1) by (rule triple_emits) (simp add: said_def)
qed (simp_all add: assms(2))

lemma triple_said_register:
  assumes "\<And>w. said c w \<Longrightarrow> E w"
  shows "triple (said c) (register_font be font_id font_path) (\<lambda>x. said c) E"
proof (rule tripleI)
  fix w
  assume s: "said c w"
  show "case fst (register_font be font_id font_path w) of
          Inl e \<Rightarrow> E (snd (register_font be font_id font_path w))
        | Inr x \<Rightarrow> said c (snd (register_font be font_id font_path w))"
    using s assms [OF s] by (simp add: register_font_def said_def split: option.split)
qed

lemma triple_said_next_page:
  "triple (said c) next_page (\<lambda>x. said c) E"
  by (rule tripleI) (simp add: next_page_def said_def)

lemma triple_said_print:
  "triple (said c) (print line) (\<lambda>x. said (c @ [line])) E"
  by (rule tripleI) (simp add: print_def said_def)

lemma triple_said_break:
  assumes "\<And>w. said c w \<Longrightarrow> E w"
  shows "triple (said c) (\<lambda>w. if page_count w > 1 then call be ShowPage w else ok () w)
     (\<lambda>x. said c) E"
  by (rule tripleI) (auto simp: call_def ok_def said_def intro: assms split: option.split)

lemma emits_header_state:
  "emits (shows_total T) (\<lambda>w. draw_page_header be L font_name (page_count w) T w)"
  by (rule emits_state [where f = "\<lambda>w0. draw_page_header be L font_name (page_count w0) T"])
    (rule emits_totals_header)

lemma triple_said_font_pages:
  "triple (said c) (font_pages be L total_fonts font_idx font_name font_path)
     (\<lambda>x. said (c @ [progress_line total_fonts font_idx font_name]))
     (said_upto c (progress_line total_fonts font_idx font_name))"
proof -
  let ?P = "progress_line total_fonts font_idx font_name"
  have 1: "\<And>w. said c w \<Longrightarrow> said_upto c ?P w"
    by (simp add: said_def said_upto_def)
  have 2: "\<And>w. said (c @ [?P]) w \<Longrightarrow> said_upto c ?P w"
    by (simp add: said_def said_upto_def)
  show ?thesis
    unfolding font_pages_def Let_def progress_line_def [symmetric]
    apply (rule triple_and_then [OF triple_said_register [OF 1]], assumption)
    apply (rule triple_and_then [OF triple_said_print])
    apply (rule triple_and_then [OF triple_said_next_page])
    apply (rule triple_and_then [OF triple_said_break [OF 2]], assumption)
    apply (rule triple_and_then [OF triple_said_emits [OF emits_header_state 2]], assumption)
    apply (rule triple_and_then [where ?Q1.0 = "\<lambda>x. said (c @ [?P])"])
     apply (rule triple_said_emits [OF _ 2], rule emits_calls [where Q = "\<lambda>op. True"], simp, assumption)
    apply (rule triple_and_then [OF triple_said_emits [OF emits_plain_character_grid 2]], assumption)
    apply (rule triple_and_then [OF triple_said_next_page])
    apply (rule triple_and_then [where ?Q1.0 = "\<lambda>x. said (c @ [?P])"])
     apply (rule triple_said_emits [OF _ 2], rule emits_call [where Q = "\<lambda>op. True"], simp, assumption)
    apply (rule triple_and_then [OF triple_said_emits [OF emits_header_state 2]], assumption)
    apply (rule triple_and_then [where ?Q1.0 = "\<lambda>x. said (c @ [?P])"])
     apply (rule triple_said_emits [OF _ 2], rule emits_calls [where Q = "\<lambda>op. True"], simp, assumption)
    apply (rule triple_and_then [OF triple_said_emits [OF emits_plain_extended_grid 2]], assumption)
    apply (rule triple_ok)
    apply assumption
    done
qed

lemma process_font_log:
  assumes "map_of font_dict (snd entry) \<noteq> None"
  shows "fst (process_font be L font_dict total_fonts entry w) = Inr ()
     \<and> (\<exists>lines. console (snd (process_font be L font_dict total_fonts entry w)) = console w @ lines
          \<and> font_log total_fonts entry lines)"
proof -
  obtain font_idx font_name where e: "entry = (font_idx, font_name)"
    by (cases entry)
  obtain font_path where p: "map_of font_dict font_name = Some font_path"
    using assms e by auto
  let ?fp = "font_pages be L total_fonts font_idx font_name font_path w"
  let ?P = "progress_line total_fonts font_idx font_name"
  have t: "case fst ?fp of Inl e \<Rightarrow> said_upto (console w) ?P (snd ?fp)
      | Inr x \<Rightarrow> said (console w @ [?P]) (snd ?fp)"
    by (rule tripleD [OF triple_said_font_pages]) (simp add: said_def)
  show ?thesis
  proof (cases "fst ?fp")
    case (Inl err)
    then have "console (snd ?fp) = console w \<or> console (snd ?fp) = console w @ [?P]"
      using t by (simp add: said_upto_def)
    then show ?thesis
      unfolding e using Inl
      by (auto simp: process_font_returns [OF p] font_log_def error_line_def)
  next
    case (Inr x)
    then have "console (snd ?fp) = console w @ [?P]"
      using t by (simp add: said_def)
    then show ?thesis
      unfolding e using Inr
      by (auto simp: process_font_returns [OF p] font_log_def)
  qed
qed

lemma font_loop_next:
  assumes "map_of font_dict (snd entry) \<noteq> None"
  shows "font_loop be L font_dict total_fonts (entry # entries) w
     = font_loop be L font_dict total_fonts entries
         (snd (process_font be L font_dict total_fonts entry w))"
  using process_font_log [OF assms, of be L total_fonts w]
  by (simp add: and_then_run)

lemma font_loop_log:
  assumes "\<And>entry. entry \<in> set entries \<Longrightarrow> map_of font_dict (snd entry) \<noteq> None"
  shows "\<exists>logs. console (snd (font_loop be L font_dict total_fonts entries w)) = console w @ concat logs
     \<and> list_all2 (font_log total_fonts) entries logs"
  using assms
proof (induction entries arbitrary: w)
  case Nil
  show ?case by (simp add: ok_def)
next
  case (Cons entry entries)
  let ?w = "snd (process_font be L font_dict total_fonts entry w)"
  have d: "map_of font_dict (snd entry) \<noteq> None"
    by (rule Cons.prems) simp
  obtain lines where l: "console ?w = console w @ lines" "font_log total_fonts entry lines"
    using process_font_log [OF d, of be L total_fonts w] by blast
  obtain logs where g: "console (snd (font_loop be L font_dict total_fonts entries ?w))
      = console ?w @ concat logs" "list_all2 (font_log total_fonts) entries logs"
    using Cons.IH [of ?w] Cons.prems by auto
  have "console (snd (font_loop be L font_dict total_fonts (entry # entries) w))
      = console w @ concat (lines # logs)"
    by (subst font_loop_next [OF d]) (simp add: g(1) l(1))
  moreover have "list_all2 (font_log total_fonts) (entry # entries) (lines # logs)"
    using l(2) g(2) by simp
  ultimately show ?case by blast
qed

text \<open>
  Claim C5, amended. A round of the font loop never raises when the font is in the
  dictionary, and the loop goes on: the fonts after it are processed from the state
  that the round has left, and every font of the list, in the order of the list, has
  its lines in the output, the progress line, an error line, or both. When the
  registration or the rendering of a font raises, the error is printed with the name
  of the font. When the registration raises, nothing is drawn and the page counter
  stays: the font has no page. When the rendering raises, what was drawn before stays
  on the canvas. Every page-of-total text on the canvas of a run shows twice the number
  of fonts found, whatever failed.
\<close>

theorem font_failure:
  "(map_of font_dict font_name = Some font_path \<longrightarrow>
      fst (process_font be L font_dict total_fonts (font_idx, font_name) w) = Inr ()
      \<and> (\<forall>e. fst (font_pages be L total_fonts font_idx font_name font_path w) = Inl e \<longrightarrow>
            snd (process_font be L font_dict total_fonts (font_idx, font_name) w)
              = (snd (font_pages be L total_fonts font_idx font_name font_path w))
                  \<lparr>console := console (snd (font_pages be L total_fonts font_idx font_name font_path w))
                     @ [lit ''  ERROR processing '' @ font_name @ lit '': '' @ str_of_error e]\<rparr>)
      \<and> (\<forall>e. font_id_of font_name \<notin> set (registered w)
              \<and> load_font be (font_id_of font_name) font_path = Some e \<longrightarrow>
            snd (process_font be L font_dict total_fonts (font_idx, font_name) w)
              = w\<lparr>console := console w
                     @ [lit ''  ERROR processing '' @ font_name @ lit '': '' @ str_of_error e]\<rparr>))
   \<and> (map_of font_dict (snd entry) \<noteq> None \<longrightarrow>
        font_loop be L font_dict total_fonts (entry # entries) w
          = font_loop be L font_dict total_fonts entries
              (snd (process_font be L font_dict total_fonts entry w)))
   \<and> ((\<forall>entry \<in> set entries. map_of font_dict (snd entry) \<noteq> None) \<longrightarrow>
        fst (font_loop be L font_dict total_fonts entries w) = Inr ()
        \<and> (\<exists>logs. console (snd (font_loop be L font_dict total_fonts entries w))
                     = console w @ concat logs
              \<and> list_all2 (font_log total_fonts) entries logs))
   \<and> (\<forall>ev \<in> set (canvas (final_world (script os be L registered0))).
        shows_total (2 * int (length (sorted_fonts (scan_fonts os (arcgis_font_dirs os))))) (fst ev))"
proof (intro conjI impI allI)
  assume p: "map_of font_dict font_name = Some font_path"
  show "fst (process_font be L font_dict total_fonts (font_idx, font_name) w) = Inr ()"
    by (simp add: process_font_returns [OF p] split: sum.split)
  show "snd (process_font be L font_dict total_fonts (font_idx, font_name) w)
      = (snd (font_pages be L total_fonts font_idx font_name font_path w))
          \<lparr>console := console (snd (font_pages be L total_fonts font_idx font_name font_path w))
             @ [lit ''  ERROR processing '' @ font_name @ lit '': '' @ str_of_error e]\<rparr>"
    if "fst (font_pages be L total_fonts font_idx font_name font_path w) = Inl e" for e
    using that by (simp add: process_font_returns [OF p])
  show "snd (process_font be L font_dict total_fonts (font_idx, font_name) w)
      = w\<lparr>console := console w
             @ [lit ''  ERROR processing '' @ font_name @ lit '': '' @ str_of_error e]\<rparr>"
    if "font_id_of font_name \<notin> set (registered w)
        \<and> load_font be (font_id_of font_name) font_path = Some e" for e
    using that by (simp add: process_font_returns [OF p] font_pages_load_fails)
next
  assume "map_of font_dict (snd entry) \<noteq> None"
  then show "font_loop be L font_dict total_fonts (entry # entries) w
      = font_loop be L font_dict total_fonts entries
          (snd (process_font be L font_dict total_fonts entry w))"
    by (rule font_loop_next)
next
  assume a: "\<forall>entry \<in> set entries. map_of font_dict (snd entry) \<noteq> None"
  then show "fst (font_loop be L font_dict total_fonts entries w) = Inr ()"
    by (intro font_loop_returns) simp
  show "\<exists>logs. console (snd (font_loop be L font_dict total_fonts entries w))
                     = console w @ concat logs
              \<and> list_all2 (font_log total_fonts) entries logs"
    using a by (intro font_loop_log) simp
next
  show "\<forall>ev \<in> set (canvas (final_world (script os be L registered0))).
        shows_total (2 * int (length (sorted_fonts (scan_fonts os (arcgis_font_dirs os))))) (fst ev)"
    using totals_script [of os be L registered0]
    by (simp add: totals_def list_all_iff mult.commute)
qed

theorem font_failure_witness:
  "font_loop no_fonts_load letter_landscape [(lit ''A'', lit ''A.ttf''), (lit ''B'', lit ''B.ttf'')] 2
     [(0, lit ''A''), (1, lit ''B'')] fresh_world
     = (Inr (), fresh_world\<lparr>console :=
          [lit ''  ERROR processing A: not a font'', lit ''  ERROR processing B: not a font'']\<rparr>)"
proof -
  let ?D = "[(lit ''A'', lit ''A.ttf''), (lit ''B'', lit ''B.ttf'')]"
  let ?w = "fresh_world\<lparr>console := [lit ''  ERROR processing A: not a font'']\<rparr>"
  have 1: "map_of ?D (lit ''A'') = Some (lit ''A.ttf'')"
    by simp
  have 2: "font_id_of (lit ''A'') \<notin> set (registered fresh_world)"
    "load_font no_fonts_load (font_id_of (lit ''A'')) (lit ''A.ttf'') = Some (Raised (lit ''not a font''))"
    by (simp_all add: fresh_world_def no_fonts_load_def)
  have 3: "lit ''  ERROR processing '' @ lit ''A'' @ lit '': '' @ str_of_error (Raised (lit ''not a font''))
      = lit ''  ERROR processing A: not a font''"
    "lit ''  ERROR processing '' @ lit ''B'' @ lit '': '' @ str_of_error (Raised (lit ''not a font''))
      = lit ''  ERROR processing B: not a font''"
    by (simp_all add: str_of_error_def lit_def)
  have 4: "map_of ?D (lit ''B'') = Some (lit ''B.ttf'')"
    by (simp add: lit_def)
  note f = font_failure [where font_dict = ?D and font_name = "lit ''A''"
      and font_path = "lit ''A.ttf''" and be = no_fonts_load and L = letter_landscape
      and total_fonts = 2 and font_idx = 0 and w = fresh_world and entry = "(0, lit ''A'')"
      and entries = "[(1, lit ''B'')]"]
  from f 1 2 have a: "snd (process_font no_fonts_load letter_landscape ?D 2 (0, lit ''A'') fresh_world)
      = ?w"
    by (simp add: 3 fresh_world_def)
  from f 1 have n: "font_loop no_fonts_load letter_landscape ?D 2 [(0, lit ''A''), (1, lit ''B'')]
      fresh_world
      = font_loop no_fonts_load letter_landscape ?D 2 [(1, lit ''B'')]
          (snd (process_font no_fonts_load letter_landscape ?D 2 (0, lit ''A'') fresh_world))"
    by simp
  have b: "font_pages no_fonts_load letter_landscape 2 1 (lit ''B'') (lit ''B.ttf'') ?w
      = (Inl (Raised (lit ''not a font'')), ?w)"
    by (rule font_pages_load_fails) (simp_all add: fresh_world_def no_fonts_load_def)
  have c: "process_font no_fonts_load letter_landscape ?D 2 (1, lit ''B'') ?w
      = (Inr (), ?w\<lparr>console := console ?w @ [lit ''  ERROR processing B: not a font'']\<rparr>)"
    by (simp only: process_font_returns [OF 4] b fst_conv snd_conv sum.case 3)
  show ?thesis
    unfolding n a
    by (simp add: and_then_run ok_def c)
qed

theorem font_failure_counterexample:
  "fst (font_pages no_lines letter_landscape 1 0 (lit ''A'') (lit ''A.ttf'') fresh_world)
     = Inl (Raised (lit ''no line''))
   \<and> (DrawString 648 590.4 (lit ''Page 1 of 2''), True)
       \<in> set (canvas (snd (process_font no_lines letter_landscape [(lit ''A'', lit ''A.ttf'')] 1
                (0, lit ''A'') fresh_world)))
   \<and> page_count (snd (process_font no_lines letter_landscape [(lit ''A'', lit ''A.ttf'')] 1
                (0, lit ''A'') fresh_world)) = 1"
  by (simp add: process_font_def font_pages_def Let_def draw_page_header_def and_then_run catch_run
      call_def ok_def lift_def print_def next_page_def register_font_def no_lines_def
      fresh_world_def letter_landscape_def margin_def str_int_def digits_of_small
      digit_char_def lit_def)

end
